theory Spec2Isabelle
  imports Main
begin

section \<open>JavaScript values and the object store\<close>

text \<open>
  The resolution engine of \<^verbatim>\<open>src/index.ts\<close> validates JavaScript data and normalises it
  in place, so the data lives in an explicit store. A value is a primitive or a reference
  into the store; numbers are modelled as integers. A stored object is an array (a list of
  slots, \<open>None\<close> being a hole) or a plain object: an object whose prototype is
  \<^verbatim>\<open>Object.prototype\<close>, given by its own enumerable properties in enumeration order.
  Functions and instances of classes are not data values of the model.
\<close>

datatype val = Undefined | Null | Bool bool | Num int | Str string | Ref nat

datatype obj =
    Arr "val option list"
  | Obj "(string \<times> val) list"

type_synonym heap = "obj list"

definition deref :: "heap \<Rightarrow> val \<Rightarrow> obj option" where
  "deref h v = (case v of Ref a \<Rightarrow> (if a < length h then Some (h ! a) else None) | _ \<Rightarrow> None)"

definition alloc :: "heap \<Rightarrow> obj \<Rightarrow> val \<times> heap" where
  "alloc h ob = (Ref (length h), h @ [ob])"

definition store :: "heap \<Rightarrow> val \<Rightarrow> obj \<Rightarrow> heap" where
  "store h v ob = (case v of Ref a \<Rightarrow> (if a < length h then h[a := ob] else h) | _ \<Rightarrow> h)"

definition slot_value :: "val option \<Rightarrow> val" where
  "slot_value x = (case x of Some v \<Rightarrow> v | None \<Rightarrow> Undefined)"

text \<open>\<^verbatim>\<open>isNullable\<close> and \<^verbatim>\<open>isObject\<close> of the source, and \<^verbatim>\<open>Array.isArray\<close>.\<close>

definition isNullable :: "val \<Rightarrow> bool" where
  "isNullable v = (case v of Undefined \<Rightarrow> True | Null \<Rightarrow> True | _ \<Rightarrow> False)"

definition isObject :: "heap \<Rightarrow> val \<Rightarrow> bool" where
  "isObject h v = (case deref h v of Some (Obj ps) \<Rightarrow> True | _ \<Rightarrow> False)"

definition isArray :: "heap \<Rightarrow> val \<Rightarrow> bool" where
  "isArray h v = (case deref h v of Some (Arr xs) \<Rightarrow> True | _ \<Rightarrow> False)"

subsection \<open>Property keys\<close>

text \<open>
  Property keys are strings. An array index is the canonical decimal numeral of a number
  below \<open>2^32 - 1\<close>; the own keys of an object enumerate the array indices in ascending
  order first and the other keys in creation order after them.
\<close>

fun dec_nat :: "nat \<Rightarrow> string" where
  "dec_nat n =
     (if n < 10 then [''0123456789'' ! n] else dec_nat (n div 10) @ [''0123456789'' ! (n mod 10)])"

declare dec_nat.simps [simp del]

definition Number_toString :: "int \<Rightarrow> string" where
  "Number_toString i = (if i < 0 then CHR ''-'' # dec_nat (nat (- i)) else dec_nat (nat i))"

definition is_digit :: "char \<Rightarrow> bool" where
  "is_digit c = (48 \<le> (of_char c :: int) \<and> (of_char c :: int) \<le> 57)"

definition digits_val :: "string \<Rightarrow> int" where
  "digits_val k = foldl (\<lambda>n c. 10 * n + ((of_char c :: int) - 48)) 0 k"

definition array_index :: "string \<Rightarrow> nat option" where
  "array_index k =
     (if k = [] then None
      else if \<not> list_all is_digit k then None
      else if hd k = CHR ''0'' \<and> tl k \<noteq> [] then None
      else if digits_val k < 4294967295 then Some (nat (digits_val k)) else None)"

fun insert_index :: "nat \<Rightarrow> string \<Rightarrow> val \<Rightarrow> (string \<times> val) list \<Rightarrow> (string \<times> val) list" where
  "insert_index n k v [] = [(k, v)]"
| "insert_index n k v ((k', v') # ps) =
     (case array_index k' of
        None \<Rightarrow> (k, v) # (k', v') # ps
      | Some n' \<Rightarrow> if n < n' then (k, v) # (k', v') # ps else (k', v') # insert_index n k v ps)"

fun replace_prop :: "string \<Rightarrow> val \<Rightarrow> (string \<times> val) list \<Rightarrow> (string \<times> val) list" where
  "replace_prop k v [] = []"
| "replace_prop k v ((k', v') # ps) =
     (if k' = k then (k, v) # ps else (k', v') # replace_prop k v ps)"

definition has_key :: "(string \<times> val) list \<Rightarrow> string \<Rightarrow> bool" where
  "has_key ps k = (case map_of ps k of Some v \<Rightarrow> True | None \<Rightarrow> False)"

definition lookup :: "(string \<times> val) list \<Rightarrow> string \<Rightarrow> val" where
  "lookup ps k = (case map_of ps k of Some v \<Rightarrow> v | None \<Rightarrow> Undefined)"

definition create :: "(string \<times> val) list \<Rightarrow> string \<Rightarrow> val \<Rightarrow> (string \<times> val) list" where
  "create ps k v =
     (case array_index k of
        None \<Rightarrow> ps @ [(k, v)]
      | Some n \<Rightarrow> insert_index n k v ps)"

definition remove :: "(string \<times> val) list \<Rightarrow> string \<Rightarrow> (string \<times> val) list" where
  "remove ps k = filter (\<lambda>p. fst p \<noteq> k) ps"

subsection \<open>What a plain object inherits\<close>

text \<open>
  Every plain object inherits the members of \<^verbatim>\<open>Object.prototype\<close>: eleven built-in
  functions and the accessor \<^verbatim>\<open>__proto__\<close>. None of them is enumerable, so
  \<^verbatim>\<open>for (const key in data)\<close> does not see them, but \<^verbatim>\<open>key in data\<close> and \<^verbatim>\<open>data[key]\<close> do.

  \<^item> \<open>key_in ps k\<close> is \<^verbatim>\<open>k in o\<close> for an object \<open>o\<close> with the own properties \<open>ps\<close>.
  \<^item> \<open>read ps k\<close> is \<^verbatim>\<open>o[k]\<close>: the own property, or \<^verbatim>\<open>undefined\<close> when there is none and
    nothing is inherited. When the property is inherited, its value is a built-in function
    (for \<^verbatim>\<open>__proto__\<close>: the prototype itself), which is not a value of the model: the
    result is \<open>None\<close>.
  \<^item> \<open>put ps k v\<close> is \<^verbatim>\<open>o[k] = v\<close>. An own property is overwritten; a new key is created,
    also over an inherited function. Assigning to \<^verbatim>\<open>__proto__\<close> without an own property
    of that name runs the inherited setter, which creates no property: it ignores a
    primitive, and for an object or \<^verbatim>\<open>null\<close> it changes the prototype, which the model does
    not follow: the result is \<open>None\<close>.
\<close>

definition Object_prototype :: "string list" where
  "Object_prototype =
     [''constructor'', ''__defineGetter__'', ''__defineSetter__'', ''hasOwnProperty'',
      ''__lookupGetter__'', ''__lookupSetter__'', ''isPrototypeOf'', ''propertyIsEnumerable'',
      ''toString'', ''valueOf'', ''__proto__'', ''toLocaleString'']"

definition inherited :: "string \<Rightarrow> bool" where
  "inherited k = (k \<in> set Object_prototype)"

definition key_in :: "(string \<times> val) list \<Rightarrow> string \<Rightarrow> bool" where
  "key_in ps k = (has_key ps k \<or> inherited k)"

definition read :: "(string \<times> val) list \<Rightarrow> string \<Rightarrow> val option" where
  "read ps k =
     (case map_of ps k of
        Some v \<Rightarrow> Some v
      | None \<Rightarrow> if inherited k then None else Some Undefined)"

definition put :: "(string \<times> val) list \<Rightarrow> string \<Rightarrow> val \<Rightarrow> (string \<times> val) list option" where
  "put ps k v =
     (if has_key ps k then Some (replace_prop k v ps)
      else if k = ''__proto__'' then (case v of Ref a \<Rightarrow> None | Null \<Rightarrow> None | _ \<Rightarrow> Some ps)
      else Some (create ps k v))"

subsection \<open>Reading and writing properties in the store\<close>

text \<open>
  \<^verbatim>\<open>data[key]\<close>, \<^verbatim>\<open>key in data\<close>, \<^verbatim>\<open>data[key] = v\<close> and \<^verbatim>\<open>delete data[key]\<close>, and the keys that
  \<^verbatim>\<open>for (const key in data)\<close> and \<^verbatim>\<open>Object.assign\<close> enumerate. A string enumerates its
  character positions; an array enumerates the indices it holds. \<open>has_own\<close> tells whether
  a key is still among them. The source reads and writes an array or a string by index
  only, and evaluates \<^verbatim>\<open>key in data\<close> on plain objects only; any other access to an array
  or a string is \<open>None\<close>, as is an access to something that is no object.
\<close>

definition index_key :: "nat \<Rightarrow> string" where
  "index_key i = dec_nat i"

definition get_prop :: "heap \<Rightarrow> val \<Rightarrow> string \<Rightarrow> val option" where
  "get_prop h d k =
     (case d of
        Str s \<Rightarrow>
          (case array_index k of
             Some i \<Rightarrow> Some (if i < length s then Str [s ! i] else Undefined)
           | None \<Rightarrow> None)
      | _ \<Rightarrow>
          (case deref h d of
             Some (Obj ps) \<Rightarrow> read ps k
           | Some (Arr xs) \<Rightarrow>
               (case array_index k of
                  Some i \<Rightarrow> Some (if i < length xs then slot_value (xs ! i) else Undefined)
                | None \<Rightarrow> None)
           | None \<Rightarrow> None))"

definition has_own :: "heap \<Rightarrow> val \<Rightarrow> string \<Rightarrow> bool" where
  "has_own h d k =
     (case d of
        Str s \<Rightarrow> (case array_index k of Some i \<Rightarrow> i < length s | None \<Rightarrow> False)
      | _ \<Rightarrow>
          (case deref h d of
             Some (Obj ps) \<Rightarrow> has_key ps k
           | Some (Arr xs) \<Rightarrow>
               (case array_index k of
                  Some i \<Rightarrow> i < length xs \<and> xs ! i \<noteq> None
                | None \<Rightarrow> False)
           | None \<Rightarrow> False))"

definition has_in :: "heap \<Rightarrow> val \<Rightarrow> string \<Rightarrow> bool" where
  "has_in h d k = (case deref h d of Some (Obj ps) \<Rightarrow> key_in ps k | _ \<Rightarrow> False)"

definition write_slot :: "val option list \<Rightarrow> nat \<Rightarrow> val \<Rightarrow> val option list" where
  "write_slot xs i v =
     (if i < length xs then xs[i := Some v] else xs @ replicate (i - length xs) None @ [Some v])"

definition set_prop :: "heap \<Rightarrow> val \<Rightarrow> string \<Rightarrow> val \<Rightarrow> heap option" where
  "set_prop h d k v =
     (case deref h d of
        Some (Obj ps) \<Rightarrow>
          (case put ps k v of None \<Rightarrow> None | Some ps' \<Rightarrow> Some (store h d (Obj ps')))
      | Some (Arr xs) \<Rightarrow>
          (case array_index k of
             Some i \<Rightarrow> Some (store h d (Arr (write_slot xs i v)))
           | None \<Rightarrow> None)
      | None \<Rightarrow> None)"

definition delete_prop :: "heap \<Rightarrow> val \<Rightarrow> string \<Rightarrow> heap" where
  "delete_prop h d k =
     (case deref h d of
        Some (Obj ps) \<Rightarrow> store h d (Obj (remove ps k))
      | Some (Arr xs) \<Rightarrow>
          (case array_index k of
             Some i \<Rightarrow> if i < length xs then store h d (Arr (xs[i := None])) else h
           | None \<Rightarrow> h)
      | None \<Rightarrow> h)"

fun present_indices :: "nat \<Rightarrow> val option list \<Rightarrow> string list" where
  "present_indices i [] = []"
| "present_indices i (None # xs) = present_indices (Suc i) xs"
| "present_indices i (Some v # xs) = index_key i # present_indices (Suc i) xs"

definition own_keys :: "heap \<Rightarrow> val \<Rightarrow> string list" where
  "own_keys h d =
     (case d of
        Str s \<Rightarrow> map index_key [0 ..< length s]
      | _ \<Rightarrow>
          (case deref h d of
             Some (Obj ps) \<Rightarrow> map fst ps
           | Some (Arr xs) \<Rightarrow> present_indices 0 xs
           | None \<Rightarrow> []))"

text \<open>
  The helper \<^verbatim>\<open>property\<close> reads and writes \<^verbatim>\<open>data[key]\<close> with a key that is a number (an
  index into an array) or a string (a key of a map). An index reads and writes the slot of
  an array directly; on anything else it is the property named by its decimal numeral.
\<close>

datatype key = Index nat | Name string

definition key_name :: "key \<Rightarrow> string" where
  "key_name k = (case k of Index i \<Rightarrow> index_key i | Name s \<Rightarrow> s)"

definition prop_get :: "heap \<Rightarrow> val \<Rightarrow> key \<Rightarrow> val option" where
  "prop_get h d k =
     (case (k, deref h d) of
        (Index i, Some (Arr xs)) \<Rightarrow> Some (if i < length xs then slot_value (xs ! i) else Undefined)
      | _ \<Rightarrow> get_prop h d (key_name k))"

definition prop_has :: "heap \<Rightarrow> val \<Rightarrow> key \<Rightarrow> bool" where
  "prop_has h d k =
     (case (k, deref h d) of
        (Index i, Some (Arr xs)) \<Rightarrow> i < length xs \<and> xs ! i \<noteq> None
      | _ \<Rightarrow> has_own h d (key_name k))"

definition prop_set :: "heap \<Rightarrow> val \<Rightarrow> key \<Rightarrow> val \<Rightarrow> heap option" where
  "prop_set h d k v =
     (case (k, deref h d) of
        (Index i, Some (Arr xs)) \<Rightarrow> Some (store h d (Arr (write_slot xs i v)))
      | _ \<Rightarrow> set_prop h d (key_name k) v)"

subsection \<open>Rendering values in messages\<close>

text \<open>
  The error messages embed \<^verbatim>\<open>${value}\<close> (the string conversion) and \<^verbatim>\<open>JSON.stringify(data)\<close>.
  Both walk the store. The list \<open>seen\<close> holds the objects on the path from the root:
  meeting one of them again is a cycle, on which \<^verbatim>\<open>JSON.stringify\<close> throws a
  \<^verbatim>\<open>TypeError\<close> and the conversion of an array yields the empty string. A path without a
  repetition is no longer than the store, so the fuel \<open>Suc (length h)\<close> never runs out first.

  The string conversion of an object calls its \<^verbatim>\<open>toString\<close>. A plain object inherits one
  that answers \<^verbatim>\<open>[object Object]\<close>; an own property of that name hides it, and since no
  value of the model is a function the conversion then throws a \<^verbatim>\<open>TypeError\<close>: the result
  is \<open>None\<close>.
\<close>

fun join :: "string \<Rightarrow> string list \<Rightarrow> string" where
  "join sep [] = []"
| "join sep [s] = s"
| "join sep (s # t # ss) = s @ sep @ join sep (t # ss)"

fun ToString_fuel :: "nat \<Rightarrow> heap \<Rightarrow> nat list \<Rightarrow> val \<Rightarrow> string option" where
  "ToString_fuel n h seen Undefined = Some ''undefined''"
| "ToString_fuel n h seen Null = Some ''null''"
| "ToString_fuel n h seen (Bool b) = Some (if b then ''true'' else ''false'')"
| "ToString_fuel n h seen (Num i) = Some (Number_toString i)"
| "ToString_fuel n h seen (Str s) = Some s"
| "ToString_fuel 0 h seen (Ref a) = Some []"
| "ToString_fuel (Suc m) h seen (Ref a) =
     (case deref h (Ref a) of
        Some (Arr xs) \<Rightarrow>
          if a \<in> set seen then Some []
          else map_option (join '','')
                 (those (map (\<lambda>x. case x of
                                      None \<Rightarrow> Some []
                                    | Some Undefined \<Rightarrow> Some []
                                    | Some Null \<Rightarrow> Some []
                                    | Some v \<Rightarrow> ToString_fuel m h (a # seen) v) xs))
      | Some (Obj ps) \<Rightarrow> if has_key ps ''toString'' then None else Some ''[object Object]''
      | None \<Rightarrow> Some ''[object Object]'')"

definition ToString :: "heap \<Rightarrow> val \<Rightarrow> string option" where
  "ToString h v = ToString_fuel (Suc (length h)) h [] v"

definition hex_digit :: "nat \<Rightarrow> char" where
  "hex_digit n = ''0123456789abcdef'' ! n"

definition json_char :: "char \<Rightarrow> string" where
  "json_char c =
     (if c = CHR 0x22 then [CHR 0x5C, CHR 0x22]
      else if c = CHR 0x5C then [CHR 0x5C, CHR 0x5C]
      else if c = CHR 0x08 then [CHR 0x5C, CHR ''b'']
      else if c = CHR 0x09 then [CHR 0x5C, CHR ''t'']
      else if c = CHR 0x0A then [CHR 0x5C, CHR ''n'']
      else if c = CHR 0x0C then [CHR 0x5C, CHR ''f'']
      else if c = CHR 0x0D then [CHR 0x5C, CHR ''r'']
      else if (of_char c :: nat) < 32
        then [CHR 0x5C, CHR ''u'', CHR ''0'', CHR ''0'',
              hex_digit ((of_char c :: nat) div 16), hex_digit ((of_char c :: nat) mod 16)]
      else [c])"

definition JSON_quote :: "string \<Rightarrow> string" where
  "JSON_quote s = CHR 0x22 # concat (map json_char s) @ [CHR 0x22]"

datatype json = Circular | NoText | Text string

fun json_elements :: "json list \<Rightarrow> string list option" where
  "json_elements [] = Some []"
| "json_elements (Circular # js) = None"
| "json_elements (NoText # js) = map_option (\<lambda>ss. ''null'' # ss) (json_elements js)"
| "json_elements (Text s # js) = map_option (\<lambda>ss. s # ss) (json_elements js)"

fun json_members :: "(string \<times> json) list \<Rightarrow> string list option" where
  "json_members [] = Some []"
| "json_members ((k, Circular) # js) = None"
| "json_members ((k, NoText) # js) = json_members js"
| "json_members ((k, Text s) # js) =
     map_option (\<lambda>ss. (JSON_quote k @ '':'' @ s) # ss) (json_members js)"

fun JSON_fuel :: "nat \<Rightarrow> heap \<Rightarrow> nat list \<Rightarrow> val \<Rightarrow> json" where
  "JSON_fuel n h seen Undefined = NoText"
| "JSON_fuel n h seen Null = Text ''null''"
| "JSON_fuel n h seen (Bool b) = Text (if b then ''true'' else ''false'')"
| "JSON_fuel n h seen (Num i) = Text (Number_toString i)"
| "JSON_fuel n h seen (Str s) = Text (JSON_quote s)"
| "JSON_fuel 0 h seen (Ref a) = Circular"
| "JSON_fuel (Suc m) h seen (Ref a) =
     (if a \<in> set seen then Circular
      else case deref h (Ref a) of
        Some (Arr xs) \<Rightarrow>
          (case json_elements (map (\<lambda>x. case x of
                                           None \<Rightarrow> NoText
                                         | Some v \<Rightarrow> JSON_fuel m h (a # seen) v) xs) of
             None \<Rightarrow> Circular
           | Some ss \<Rightarrow> Text (''['' @ join '','' ss @ '']''))
      | Some (Obj ps) \<Rightarrow>
          (case json_members (map (\<lambda>p. (fst p, JSON_fuel m h (a # seen) (snd p))) ps) of
             None \<Rightarrow> Circular
           | Some ss \<Rightarrow> Text (''{'' @ join '','' ss @ ''}''))
      | None \<Rightarrow> NoText)"

definition JSON_stringify :: "heap \<Rightarrow> val \<Rightarrow> json" where
  "JSON_stringify h v = JSON_fuel (Suc (length h)) h [] v"

section \<open>Schemas\<close>

text \<open>
  A schema node is a kind, the payload of the kind and the metadata (\<^verbatim>\<open>Schema.Base\<close> and
  \<^verbatim>\<open>Schema.Meta\<close>). The factory methods of \<^verbatim>\<open>defineMethod\<close> pass every sub-schema through
  \<^verbatim>\<open>Schema.from\<close>, so a node built by them always carries the payload of its kind: an
  \<open>SDict\<close> without a key schema carries \<open>SAny\<close> there. \<open>SOther\<close> is a node whose
  \<^verbatim>\<open>type\<close> has no entry in \<^verbatim>\<open>resolvers\<close>. The fields of an \<open>SObject\<close> are listed in the
  enumeration order of its \<^verbatim>\<open>dict\<close>. The payload of \<open>SIs\<close> is the name of the constructor:
  \<^verbatim>\<open>Object\<close> and \<^verbatim>\<open>Array\<close> are the built-in ones, any other name stands for a class, which
  has no instance among the values of the model. A transform callback is a function on the
  store that returns a value or throws.
\<close>

record meta =
  required :: bool
  default_value :: val
  hidden :: bool
  adaptive :: bool
  description :: "string option"
  comment :: "string option"

datatype thrown = ThrowSchemaError string | ThrowError string

datatype schema =
    SAny meta
  | SNever meta
  | SConst val meta
  | SString meta
  | SNumber meta
  | SBoolean meta
  | SIs string meta
  | SArray schema meta
  | SDict schema schema meta
  | STuple "schema list" meta
  | SObject "(string \<times> schema) list" meta
  | SUnion "schema list" meta
  | SIntersect "schema list" meta
  | STransform schema "heap \<Rightarrow> val \<Rightarrow> (thrown + val) \<times> heap" meta
  | SOther string meta

fun meta_of :: "schema \<Rightarrow> meta" where
  "meta_of (SAny m) = m"
| "meta_of (SNever m) = m"
| "meta_of (SConst v m) = m"
| "meta_of (SString m) = m"
| "meta_of (SNumber m) = m"
| "meta_of (SBoolean m) = m"
| "meta_of (SIs c m) = m"
| "meta_of (SArray inner m) = m"
| "meta_of (SDict inner sKey m) = m"
| "meta_of (STuple list m) = m"
| "meta_of (SObject dict m) = m"
| "meta_of (SUnion list m) = m"
| "meta_of (SIntersect list m) = m"
| "meta_of (STransform inner callback m) = m"
| "meta_of (SOther t m) = m"

text \<open>The metadata of a fresh node (\<^verbatim>\<open>schema.meta ||= {}\<close>).\<close>

definition no_meta :: meta where
  "no_meta = \<lparr>required = False, default_value = Undefined, hidden = False, adaptive = False,
              description = None, comment = None\<rparr>"

subsection \<open>The string conversion of a schema\<close>

text \<open>
  The constructor of \<^verbatim>\<open>SchemaError\<close> writes \<^verbatim>\<open>${SchemaError.current}\<close> into the stack trace,
  which calls the \<^verbatim>\<open>toString\<close> that \<^verbatim>\<open>defineMethod\<close> gave the schema. The text itself is not
  part of the model, but whether it can be built is. The formatter of \<^verbatim>\<open>const\<close> returns the
  constant itself unless it is a string, and the formatter of \<^verbatim>\<open>transform\<close> returns what the
  formatter of the inner schema returns; every other formatter builds a string out of the
  texts of its sub-schemas.

  \<^item> \<open>formats S h\<close>: \<^verbatim>\<open>${S.toString()}\<close> evaluates, that is, the formatter of \<open>S\<close> returns
    and what it returns converts to a string.
  \<^item> \<open>renders S h\<close>: \<^verbatim>\<open>${S}\<close> evaluates, that is, the formatter of \<open>S\<close> returns a primitive.
    When it returns an object, the conversion of the schema to a string throws a
    \<^verbatim>\<open>TypeError\<close>.
\<close>

primrec formats :: "schema \<Rightarrow> heap \<Rightarrow> bool" where
  "formats (SAny m) = (\<lambda>h. True)"
| "formats (SNever m) = (\<lambda>h. True)"
| "formats (SConst v m) = (\<lambda>h. ToString h v \<noteq> None)"
| "formats (SString m) = (\<lambda>h. True)"
| "formats (SNumber m) = (\<lambda>h. True)"
| "formats (SBoolean m) = (\<lambda>h. True)"
| "formats (SIs c m) = (\<lambda>h. True)"
| "formats (SArray inner m) = formats inner"
| "formats (SDict inner sKey m) = (\<lambda>h. formats sKey h \<and> formats inner h)"
| "formats (STuple list m) = (\<lambda>h. list_all (\<lambda>f. f h) (map formats list))"
| "formats (SObject dict m) = (\<lambda>h. list_all (\<lambda>p. snd p h) (map (map_prod id formats) dict))"
| "formats (SUnion list m) = (\<lambda>h. list_all (\<lambda>f. f h) (map formats list))"
| "formats (SIntersect list m) = (\<lambda>h. list_all (\<lambda>f. f h) (map formats list))"
| "formats (STransform inner callback m) = formats inner"
| "formats (SOther t m) = (\<lambda>h. True)"

primrec renders :: "schema \<Rightarrow> heap \<Rightarrow> bool" where
  "renders (SAny m) = (\<lambda>h. True)"
| "renders (SNever m) = (\<lambda>h. True)"
| "renders (SConst v m) = (\<lambda>h. case v of Ref a \<Rightarrow> False | _ \<Rightarrow> True)"
| "renders (SString m) = (\<lambda>h. True)"
| "renders (SNumber m) = (\<lambda>h. True)"
| "renders (SBoolean m) = (\<lambda>h. True)"
| "renders (SIs c m) = (\<lambda>h. True)"
| "renders (SArray inner m) = formats (SArray inner m)"
| "renders (SDict inner sKey m) = formats (SDict inner sKey m)"
| "renders (STuple list m) = formats (STuple list m)"
| "renders (SObject dict m) = formats (SObject dict m)"
| "renders (SUnion list m) = formats (SUnion list m)"
| "renders (SIntersect list m) = formats (SIntersect list m)"
| "renders (STransform inner callback m) = renders inner"
| "renders (SOther t m) = (\<lambda>h. True)"

section \<open>Errors and the resolution state\<close>

text \<open>
  A \<^verbatim>\<open>SchemaError\<close> holds its message and the schema that \<^verbatim>\<open>SchemaError.current\<close> named
  when it was constructed (what \<^verbatim>\<open>init\<close> writes into the stack trace). Any other exception
  is an \<open>OtherError\<close>. The state is the store and the slot \<^verbatim>\<open>SchemaError.current\<close>.

  \<open>Beyond\<close> is no exception of the program. It is the outcome of a run that leaves the
  part of JavaScript that the model covers: a run that reads a member of
  \<^verbatim>\<open>Object.prototype\<close> as a value, or changes the prototype of an object. No \<^verbatim>\<open>catch\<close> clause
  sees it, and nothing is stated about the program where the model answers \<open>Beyond\<close>.
\<close>

datatype error = SchemaError string "schema option" | OtherError string | Beyond

fun message :: "error \<Rightarrow> string" where
  "message (SchemaError msg ctx) = msg"
| "message (OtherError msg) = msg"
| "message Beyond = []"

record state =
  heap :: heap
  current :: "schema option"

type_synonym 'a result = "(error + 'a) \<times> state"

definition cannot_convert :: string where
  "cannot_convert = ''Cannot convert object to primitive value''"

text \<open>
  \<^verbatim>\<open>new SchemaError(message)\<close>: the constructor runs \<^verbatim>\<open>init\<close>, which returns at once when the
  slot is empty and converts the schema in the slot to a string otherwise. When that
  conversion throws, the \<^verbatim>\<open>TypeError\<close> leaves the constructor in place of the new error.
  (The stack trace that \<^verbatim>\<open>init\<close> rewrites is taken to have a second line, as it has
  unless stack traces are switched off.)
\<close>

definition new_SchemaError :: "state \<Rightarrow> string \<Rightarrow> error" where
  "new_SchemaError st msg =
     (case current st of
        None \<Rightarrow> SchemaError msg None
      | Some schema \<Rightarrow>
          if renders schema (heap st) then SchemaError msg (Some schema)
          else OtherError cannot_convert)"

definition throw_schema :: "state \<Rightarrow> string \<Rightarrow> 'a result" where
  "throw_schema st msg = (Inl (new_SchemaError st msg), st)"

definition beyond :: "state \<Rightarrow> 'a result" where
  "beyond st = (Inl Beyond, st)"

definition json_text :: "json \<Rightarrow> string" where
  "json_text j = (case j of Text s \<Rightarrow> s | _ \<Rightarrow> ''undefined'')"

definition expected_but_got :: "state \<Rightarrow> string \<Rightarrow> val \<Rightarrow> 'a result" where
  "expected_but_got st what data =
     (case JSON_stringify (heap st) data of
        Circular \<Rightarrow> (Inl (OtherError ''Converting circular structure to JSON''), st)
      | j \<Rightarrow> throw_schema st (''expected '' @ what @ '' but got '' @ json_text j))"

definition instanceOf :: "heap \<Rightarrow> val \<Rightarrow> string \<Rightarrow> bool" where
  "instanceOf h data c =
     (case deref h data of
        Some (Obj ps) \<Rightarrow> c = ''Object''
      | Some (Arr xs) \<Rightarrow> c = ''Array'' \<or> c = ''Object''
      | None \<Rightarrow> False)"

definition new_object :: "state \<Rightarrow> (string \<times> val) list \<Rightarrow> val \<times> state" where
  "new_object st ps = (case alloc (heap st) (Obj ps) of (r, h) \<Rightarrow> (r, st\<lparr>heap := h\<rparr>))"

definition new_array :: "state \<Rightarrow> val option list \<Rightarrow> val \<times> state" where
  "new_array st xs = (case alloc (heap st) (Arr xs) of (r, h) \<Rightarrow> (r, st\<lparr>heap := h\<rparr>))"

text \<open>
  Calling a transform callback. A callback that throws a \<^verbatim>\<open>SchemaError\<close> constructs it
  while the slot names the transform schema.
\<close>

definition call :: "state \<Rightarrow> (heap \<Rightarrow> val \<Rightarrow> (thrown + val) \<times> heap) \<Rightarrow> val \<Rightarrow> val result" where
  "call st callback v =
     (case callback (heap st) v of
        (Inl (ThrowSchemaError msg), h) \<Rightarrow> throw_schema (st\<lparr>heap := h\<rparr>) msg
      | (Inl (ThrowError msg), h) \<Rightarrow> (Inl (OtherError msg), st\<lparr>heap := h\<rparr>)
      | (Inr r, h) \<Rightarrow> (Inr r, st\<lparr>heap := h\<rparr>))"

section \<open>The resolution engine\<close>

text \<open>
  \<^verbatim>\<open>Object.assign(result, value)\<close> and \<^verbatim>\<open>merge(result, data)\<close> write into a result object that
  the resolver has just created and that nothing else refers to until the resolver returns:
  the model keeps it as a local property list and puts it into the store on return.
  \<^verbatim>\<open>Object.assign(data, value)\<close> of the transform resolver writes into the caller's object.
  Each of them is \<open>None\<close> when a read or a write in it is.
\<close>

fun Object_assign ::
  "heap \<Rightarrow> (string \<times> val) list \<Rightarrow> val \<Rightarrow> string list \<Rightarrow> (string \<times> val) list option" where
  "Object_assign h result v [] = Some result"
| "Object_assign h result v (key # keys) =
     (case get_prop h v key of
        None \<Rightarrow> None
      | Some x \<Rightarrow>
          (case put result key x of
             None \<Rightarrow> None
           | Some result' \<Rightarrow> Object_assign h result' v keys))"

fun merge_loop ::
  "heap \<Rightarrow> (string \<times> val) list \<Rightarrow> val \<Rightarrow> string list \<Rightarrow> (string \<times> val) list option" where
  "merge_loop h result data [] = Some result"
| "merge_loop h result data (key # keys) =
     (if key_in result key then merge_loop h result data keys
      else case get_prop h data key of
             None \<Rightarrow> None
           | Some x \<Rightarrow>
               (case put result key x of
                  None \<Rightarrow> None
                | Some result' \<Rightarrow> merge_loop h result' data keys))"

definition merge :: "heap \<Rightarrow> (string \<times> val) list \<Rightarrow> val \<Rightarrow> (string \<times> val) list option" where
  "merge h result data = merge_loop h result data (own_keys h data)"

fun Object_assign_store :: "heap \<Rightarrow> val \<Rightarrow> val \<Rightarrow> string list \<Rightarrow> heap option" where
  "Object_assign_store h target v [] = Some h"
| "Object_assign_store h target v (key # keys) =
     (case get_prop h v key of
        None \<Rightarrow> None
      | Some x \<Rightarrow>
          (case set_prop h target key x of
             None \<Rightarrow> None
           | Some h' \<Rightarrow> Object_assign_store h' target v keys))"

text \<open>
  The loop of the transform resolver over the keys of the inner result: a key that is in
  the input moves from the input into \<^verbatim>\<open>temp\<close>. As in every \<^verbatim>\<open>for ... in\<close> loop of the
  model, the keys are those present when the loop starts, and a key deleted before its
  turn is skipped.
\<close>

fun transform_loop ::
  "heap \<Rightarrow> val \<Rightarrow> val \<Rightarrow> string list \<Rightarrow> (string \<times> val) list
    \<Rightarrow> ((string \<times> val) list \<times> heap) option" where
  "transform_loop h data result [] temp = Some (temp, h)"
| "transform_loop h data result (key # keys) temp =
     (if \<not> has_own h result key then transform_loop h data result keys temp
      else if \<not> has_in h data key then transform_loop h data result keys temp
      else case get_prop h data key of
             None \<Rightarrow> None
           | Some x \<Rightarrow>
               (case put temp key x of
                  None \<Rightarrow> None
                | Some temp' \<Rightarrow> transform_loop (delete_prop h data key) data result keys temp'))"

definition array_length :: "heap \<Rightarrow> val \<Rightarrow> nat" where
  "array_length h data = (case deref h data of Some (Arr xs) \<Rightarrow> length xs | _ \<Rightarrow> 0)"

definition slice_spread :: "heap \<Rightarrow> val \<Rightarrow> nat \<Rightarrow> val list" where
  "slice_spread h data n =
     (case deref h data of
        Some (Arr xs) \<Rightarrow> map slot_value (drop n xs)
      | _ \<Rightarrow> [])"

text \<open>
  A resolver reaches its sub-schemas only through \<^verbatim>\<open>Schema.resolve(x, inner, hint)\<close>. In the
  model a resolver takes, for each sub-schema, the function \<open>\<lambda>st x hint. resolve inner st x hint\<close>
  in place of the sub-schema, so that \<open>resolve\<close> below is a structural recursion over the
  schema. \<open>property\<close> is the helper of that name; each loop of a resolver is a function of
  its own.
\<close>

type_synonym resolve_fn = "state \<Rightarrow> val \<Rightarrow> bool \<Rightarrow> (val \<times> val) result"

definition property :: "state \<Rightarrow> val \<Rightarrow> key \<Rightarrow> resolve_fn \<Rightarrow> val result" where
  "property st data key schema =
     (case prop_get (heap st) data key of
        None \<Rightarrow> beyond st
      | Some x \<Rightarrow>
          (case schema st x False of
             (Inl e, st') \<Rightarrow> (Inl e, st')
           | (Inr (v, adapted), st') \<Rightarrow>
               if isNullable adapted then (Inr v, st')
               else (case prop_set (heap st') data key adapted of
                       None \<Rightarrow> beyond st'
                     | Some h \<Rightarrow> (Inr v, st'\<lparr>heap := h\<rparr>))))"

definition any_resolver :: resolve_fn where
  "any_resolver st data hint = (Inr (data, Undefined), st)"

definition never_resolver :: resolve_fn where
  "never_resolver st data hint = expected_but_got st ''nullable'' data"

definition const_resolver :: "val \<Rightarrow> resolve_fn" where
  "const_resolver v st data hint =
     (if data = v then (Inr (v, Undefined), st)
      else case ToString (heap st) v of
             None \<Rightarrow> (Inl (OtherError cannot_convert), st)
           | Some s \<Rightarrow> expected_but_got st s data)"

definition string_resolver :: resolve_fn where
  "string_resolver st data hint =
     (case data of Str s \<Rightarrow> (Inr (data, Undefined), st) | _ \<Rightarrow> expected_but_got st ''string'' data)"

definition number_resolver :: resolve_fn where
  "number_resolver st data hint =
     (case data of Num n \<Rightarrow> (Inr (data, Undefined), st) | _ \<Rightarrow> expected_but_got st ''number'' data)"

definition boolean_resolver :: resolve_fn where
  "boolean_resolver st data hint =
     (case data of Bool b \<Rightarrow> (Inr (data, Undefined), st) | _ \<Rightarrow> expected_but_got st ''boolean'' data)"

definition is_resolver :: "string \<Rightarrow> resolve_fn" where
  "is_resolver c st data hint =
     (if instanceOf (heap st) data c then (Inr (data, Undefined), st)
      else case ToString (heap st) data of
             None \<Rightarrow> (Inl (OtherError cannot_convert), st)
           | Some s \<Rightarrow> throw_schema st (''expected '' @ c @ '' but got '' @ s))"

fun array_loop ::
  "resolve_fn \<Rightarrow> state \<Rightarrow> val \<Rightarrow> nat list \<Rightarrow> val option list \<Rightarrow> (val option list) result" where
  "array_loop inner st data [] result = (Inr result, st)"
| "array_loop inner st data (index # rest) result =
     (if \<not> prop_has (heap st) data (Index index)
      then array_loop inner st data rest (result @ [None])
      else case property st data (Index index) inner of
             (Inl e, st') \<Rightarrow> (Inl e, st')
           | (Inr v, st') \<Rightarrow> array_loop inner st' data rest (result @ [Some v]))"

definition array_resolver :: "resolve_fn \<Rightarrow> resolve_fn" where
  "array_resolver inner st data hint =
     (if \<not> isArray (heap st) data then expected_but_got st ''array'' data
      else case array_loop inner st data [0 ..< array_length (heap st) data] [] of
             (Inl e, st') \<Rightarrow> (Inl e, st')
           | (Inr result, st') \<Rightarrow>
               (case new_array st' result of (r, st'') \<Rightarrow> (Inr (r, Undefined), st'')))"

text \<open>
  The loop of the dict resolver. An exception of the key schema is caught: in strict mode
  the loop goes on with the next key, otherwise the exception is thrown again.
\<close>

fun dict_loop ::
  "resolve_fn \<Rightarrow> resolve_fn \<Rightarrow> bool \<Rightarrow> state \<Rightarrow> val \<Rightarrow> string list \<Rightarrow> (string \<times> val) list
    \<Rightarrow> ((string \<times> val) list) result" where
  "dict_loop inner sKey strict st data [] result = (Inr result, st)"
| "dict_loop inner sKey strict st data (key # keys) result =
     (if \<not> has_own (heap st) data key then dict_loop inner sKey strict st data keys result
      else case sKey st (Str key) False of
             (Inl Beyond, st1) \<Rightarrow> beyond st1
           | (Inl e, st1) \<Rightarrow>
               if strict then dict_loop inner sKey strict st1 data keys result
               else (Inl e, st1)
           | (Inr (rKey, adapted), st1) \<Rightarrow>
               (case property st1 data (Name key) inner of
                  (Inl e, st2) \<Rightarrow> (Inl e, st2)
                | (Inr v, st2) \<Rightarrow>
                    (case ToString (heap st2) rKey of
                       None \<Rightarrow> (Inl (OtherError cannot_convert), st2)
                     | Some rk \<Rightarrow>
                         (case put result rk v of
                            None \<Rightarrow> beyond st2
                          | Some result' \<Rightarrow>
                              (case get_prop (heap st2) data key of
                                 None \<Rightarrow> beyond st2
                               | Some x \<Rightarrow>
                                   (case set_prop (heap st2) data rk x of
                                      None \<Rightarrow> beyond st2
                                    | Some h3 \<Rightarrow>
                                        dict_loop inner sKey strict
                                          (st2\<lparr>heap := delete_prop h3 data key\<rparr>) data keys
                                          result'))))))"

definition dict_resolver :: "resolve_fn \<Rightarrow> resolve_fn \<Rightarrow> resolve_fn" where
  "dict_resolver inner sKey st data strict =
     (if \<not> isObject (heap st) data then expected_but_got st ''object'' data
      else case dict_loop inner sKey strict st data (own_keys (heap st) data) [] of
             (Inl e, st') \<Rightarrow> (Inl e, st')
           | (Inr result, st') \<Rightarrow>
               (case new_object st' result of (r, st'') \<Rightarrow> (Inr (r, Undefined), st'')))"

fun tuple_loop ::
  "state \<Rightarrow> val \<Rightarrow> resolve_fn list \<Rightarrow> nat \<Rightarrow> val list \<Rightarrow> (val list) result" where
  "tuple_loop st data [] index result = (Inr result, st)"
| "tuple_loop st data (inner # rest) index result =
     (case property st data (Index index) inner of
        (Inl e, st') \<Rightarrow> (Inl e, st')
      | (Inr v, st') \<Rightarrow> tuple_loop st' data rest (Suc index) (result @ [v]))"

definition tuple_resolver :: "resolve_fn list \<Rightarrow> resolve_fn" where
  "tuple_resolver list st data strict =
     (if \<not> isArray (heap st) data then expected_but_got st ''array'' data
      else case tuple_loop st data list 0 [] of
             (Inl e, st') \<Rightarrow> (Inl e, st')
           | (Inr result, st') \<Rightarrow>
               (case new_array st'
                       (map Some (if strict then result
                                  else result @ slice_spread (heap st') data (length list))) of
                  (r, st'') \<Rightarrow> (Inr (r, Undefined), st'')))"

fun object_loop ::
  "state \<Rightarrow> val \<Rightarrow> (string \<times> resolve_fn) list \<Rightarrow> (string \<times> val) list
    \<Rightarrow> ((string \<times> val) list) result" where
  "object_loop st data [] result = (Inr result, st)"
| "object_loop st data ((key, inner) # rest) result =
     (case property st data (Name key) inner of
        (Inl e, st') \<Rightarrow> (Inl e, st')
      | (Inr v, st') \<Rightarrow>
          if \<not> isNullable v \<or> has_in (heap st') data key
          then (case put result key v of
                  None \<Rightarrow> beyond st'
                | Some result' \<Rightarrow> object_loop st' data rest result')
          else object_loop st' data rest result)"

definition object_resolver :: "(string \<times> resolve_fn) list \<Rightarrow> resolve_fn" where
  "object_resolver dict st data strict =
     (if \<not> isObject (heap st) data then expected_but_got st ''object'' data
      else case object_loop st data dict [] of
             (Inl e, st') \<Rightarrow> (Inl e, st')
           | (Inr result, st') \<Rightarrow>
               (case (if strict then Some result else merge (heap st') result data) of
                  None \<Rightarrow> beyond st'
                | Some result' \<Rightarrow>
                    (case new_object st' result' of (r, st'') \<Rightarrow> (Inr (r, Undefined), st''))))"

text \<open>
  The loop of the union resolver collects the message of every alternative that throws,
  and throws its own error when the list is exhausted.
\<close>

fun union_loop :: "state \<Rightarrow> val \<Rightarrow> resolve_fn list \<Rightarrow> string list \<Rightarrow> (val \<times> val) result" where
  "union_loop st data [] messages = expected_but_got st ''union'' data"
| "union_loop st data (inner # rest) messages =
     (case inner st data False of
        (Inl Beyond, st') \<Rightarrow> beyond st'
      | (Inl e, st') \<Rightarrow> union_loop st' data rest (messages @ [message e])
      | (Inr r, st') \<Rightarrow> (Inr r, st'))"

definition union_resolver :: "resolve_fn list \<Rightarrow> resolve_fn" where
  "union_resolver list st data hint = union_loop st data list []"

fun intersect_loop ::
  "state \<Rightarrow> val \<Rightarrow> resolve_fn list \<Rightarrow> (string \<times> val) list \<Rightarrow> ((string \<times> val) list) result" where
  "intersect_loop st data [] result = (Inr result, st)"
| "intersect_loop st data (inner # rest) result =
     (case inner st data True of
        (Inl e, st') \<Rightarrow> (Inl e, st')
      | (Inr (v, adapted), st') \<Rightarrow>
          (case Object_assign (heap st') result v (own_keys (heap st') v) of
             None \<Rightarrow> beyond st'
           | Some result' \<Rightarrow> intersect_loop st' data rest result'))"

definition intersect_resolver :: "resolve_fn list \<Rightarrow> resolve_fn" where
  "intersect_resolver list st data hint =
     (case intersect_loop st data list [] of
        (Inl e, st') \<Rightarrow> (Inl e, st')
      | (Inr result, st') \<Rightarrow>
          (case (if isObject (heap st') data then merge (heap st') result data else Some result) of
             None \<Rightarrow> beyond st'
           | Some result' \<Rightarrow>
               (case new_object st' result' of (r, st'') \<Rightarrow> (Inr (r, Undefined), st''))))"

definition transform_resolver ::
  "resolve_fn \<Rightarrow> (heap \<Rightarrow> val \<Rightarrow> (thrown + val) \<times> heap) \<Rightarrow> resolve_fn" where
  "transform_resolver inner callback st data hint =
     (case inner st data True of
        (Inl e, st1) \<Rightarrow> (Inl e, st1)
      | (Inr (result, adapted0), st1) \<Rightarrow>
          (let adapted = (if adapted0 = Undefined then data else adapted0) in
           if isObject (heap st1) data then
             (case transform_loop (heap st1) data result (own_keys (heap st1) result) [] of
                None \<Rightarrow> beyond st1
              | Some (temp_props, h2) \<Rightarrow>
                  (case new_object (st1\<lparr>heap := h2\<rparr>) temp_props of
                     (temp, st3) \<Rightarrow>
                       (case call st3 callback temp of
                          (Inl e, st4) \<Rightarrow> (Inl e, st4)
                        | (Inr r1, st4) \<Rightarrow>
                            (case Object_assign_store (heap st4) data r1 (own_keys (heap st4) r1) of
                               None \<Rightarrow> beyond st4
                             | Some h5 \<Rightarrow>
                                 (case call (st4\<lparr>heap := h5\<rparr>) callback result of
                                    (Inl e, st6) \<Rightarrow> (Inl e, st6)
                                  | (Inr r2, st6) \<Rightarrow> (Inr (r2, Undefined), st6))))))
           else
             (case call st1 callback result of
                (Inl e, st2) \<Rightarrow> (Inl e, st2)
              | (Inr r1, st2) \<Rightarrow>
                  (case call st2 callback adapted of
                     (Inl e, st3) \<Rightarrow> (Inl e, st3)
                   | (Inr r2, st3) \<Rightarrow> (Inr (r1, r2), st3)))))"

text \<open>
  \<^verbatim>\<open>Schema.resolve\<close> for a schema that is present. \<open>callback\<close> is \<^verbatim>\<open>resolvers[schema.type]\<close>
  applied to the payload of the schema, \<open>None\<close> when the kind has no entry. \<open>resolve_try\<close>
  is the \<^verbatim>\<open>try\<close> block after the slot is set; \<open>resolve_with\<close> adds the \<^verbatim>\<open>catch\<close> clause,
  which runs before the slot is restored, and the \<^verbatim>\<open>finally\<close> clause, which writes
  \<open>previous\<close> back.
\<close>

fun type_of :: "schema \<Rightarrow> string" where
  "type_of (SAny m) = ''any''"
| "type_of (SNever m) = ''never''"
| "type_of (SConst v m) = ''const''"
| "type_of (SString m) = ''string''"
| "type_of (SNumber m) = ''number''"
| "type_of (SBoolean m) = ''boolean''"
| "type_of (SIs c m) = ''is''"
| "type_of (SArray inner m) = ''array''"
| "type_of (SDict inner sKey m) = ''dict''"
| "type_of (STuple list m) = ''tuple''"
| "type_of (SObject dict m) = ''object''"
| "type_of (SUnion list m) = ''union''"
| "type_of (SIntersect list m) = ''intersect''"
| "type_of (STransform inner callback m) = ''transform''"
| "type_of (SOther t m) = t"

text \<open>
  The kinds that \<^verbatim>\<open>Schema.extend\<close> has registered when the module is loaded. An \<open>SOther\<close>
  node is meant to have a \<^verbatim>\<open>type\<close> outside this list. If its \<^verbatim>\<open>type\<close> is in the list, the node
  is one of that kind without the payload of the kind; if its \<^verbatim>\<open>type\<close> names a member of
  \<^verbatim>\<open>Object.prototype\<close>, then \<^verbatim>\<open>resolvers[schema.type]\<close> is that member. Both are beyond the model.
\<close>

definition resolver_types :: "string list" where
  "resolver_types =
     [''any'', ''never'', ''const'', ''string'', ''number'', ''boolean'', ''is'', ''array'',
      ''dict'', ''tuple'', ''object'', ''union'', ''intersect'', ''transform'']"

definition resolve_try :: "schema \<Rightarrow> resolve_fn option \<Rightarrow> resolve_fn" where
  "resolve_try schema callback st data hint =
     (if isNullable data \<and> required (meta_of schema)
        then throw_schema st ''missing required value''
      else if isNullable data \<and> isNullable (default_value (meta_of schema))
        then (Inr (data, Undefined), st)
      else let data' = (if isNullable data then default_value (meta_of schema) else data) in
        case callback of
          None \<Rightarrow>
            if type_of schema \<in> set resolver_types \<or> inherited (type_of schema) then beyond st
            else throw_schema st (''unsupported type '' @ [CHR 0x22] @ type_of schema @ [CHR 0x22])
        | Some cb \<Rightarrow> cb st data' hint)"

text \<open>
  The \<^verbatim>\<open>catch\<close> clause: a \<^verbatim>\<open>SchemaError\<close> is replaced by a new one with the same message,
  any other exception is thrown again as it is.
\<close>

definition rethrow :: "state \<Rightarrow> error \<Rightarrow> error" where
  "rethrow st e = (case e of SchemaError msg ctx \<Rightarrow> new_SchemaError st msg | _ \<Rightarrow> e)"

definition resolve_with :: "schema \<Rightarrow> resolve_fn option \<Rightarrow> resolve_fn" where
  "resolve_with schema callback st data hint =
     (let previous = current st in
      case resolve_try schema callback (st\<lparr>current := Some schema\<rparr>) data hint of
        (Inl e, st') \<Rightarrow> (Inl (rethrow st' e), st'\<lparr>current := previous\<rparr>)
      | (Inr r, st') \<Rightarrow> (Inr r, st'\<lparr>current := previous\<rparr>))"

primrec resolve :: "schema \<Rightarrow> resolve_fn" where
  "resolve (SAny m) = resolve_with (SAny m) (Some any_resolver)"
| "resolve (SNever m) = resolve_with (SNever m) (Some never_resolver)"
| "resolve (SConst v m) = resolve_with (SConst v m) (Some (const_resolver v))"
| "resolve (SString m) = resolve_with (SString m) (Some string_resolver)"
| "resolve (SNumber m) = resolve_with (SNumber m) (Some number_resolver)"
| "resolve (SBoolean m) = resolve_with (SBoolean m) (Some boolean_resolver)"
| "resolve (SIs c m) = resolve_with (SIs c m) (Some (is_resolver c))"
| "resolve (SArray inner m) =
     resolve_with (SArray inner m) (Some (array_resolver (resolve inner)))"
| "resolve (SDict inner sKey m) =
     resolve_with (SDict inner sKey m) (Some (dict_resolver (resolve inner) (resolve sKey)))"
| "resolve (STuple list m) =
     resolve_with (STuple list m) (Some (tuple_resolver (map resolve list)))"
| "resolve (SObject dict m) =
     resolve_with (SObject dict m) (Some (object_resolver (map (map_prod id resolve) dict)))"
| "resolve (SUnion list m) =
     resolve_with (SUnion list m) (Some (union_resolver (map resolve list)))"
| "resolve (SIntersect list m) =
     resolve_with (SIntersect list m) (Some (intersect_resolver (map resolve list)))"
| "resolve (STransform inner callback m) =
     resolve_with (STransform inner callback m)
       (Some (transform_resolver (resolve inner) callback))"
| "resolve (SOther t m) = resolve_with (SOther t m) None"

text \<open>
  \<^verbatim>\<open>Schema.resolve(data, schema, hint)\<close> as callers see it: without a schema the input comes
  back unchanged. The function \<^verbatim>\<open>schema\<close> that the factory \<^verbatim>\<open>Schema\<close> returns makes every
  node callable.
\<close>

definition Schema_resolve :: "state \<Rightarrow> val \<Rightarrow> schema option \<Rightarrow> bool \<Rightarrow> (val \<times> val) result" where
  "Schema_resolve st data schema hint =
     (case schema of
        None \<Rightarrow> (Inr (data, Undefined), st)
      | Some s \<Rightarrow> resolve s st data hint)"

definition schema_call :: "schema \<Rightarrow> state \<Rightarrow> val \<Rightarrow> val result" where
  "schema_call schema st data =
     (case Schema_resolve st data (Some schema) False of
        (Inl e, st') \<Rightarrow> (Inl e, st')
      | (Inr r, st') \<Rightarrow> (Inr (fst r), st'))"

section \<open>Notions used in the statements\<close>

text \<open>
  \<open>all_fail list st data\<close> is the state reached when every alternative of \<open>list\<close>, tried
  in order on \<open>data\<close> from the state \<open>st\<close>, throws; it is \<open>None\<close> when one of them returns
  or leaves the model.
\<close>

fun all_fail :: "resolve_fn list \<Rightarrow> state \<Rightarrow> val \<Rightarrow> state option" where
  "all_fail [] st data = Some st"
| "all_fail (inner # rest) st data =
     (case inner st data False of
        (Inl Beyond, st') \<Rightarrow> None
      | (Inl e, st') \<Rightarrow> all_fail rest st' data
      | (Inr r, st') \<Rightarrow> None)"


text \<open>
  The schemas for which resolving a resolved value again is shown to change nothing: the
  kinds without sub-schemas (any, never, const, string, number, boolean and the instance
  check), and arrays, tuples and objects of such schemas. The fields of an object have
  distinct names, none of which is \<^verbatim>\<open>__proto__\<close>.
\<close>

primrec plain :: "schema \<Rightarrow> bool" where
  "plain (SAny m) = True"
| "plain (SNever m) = True"
| "plain (SConst v m) = True"
| "plain (SString m) = True"
| "plain (SNumber m) = True"
| "plain (SBoolean m) = True"
| "plain (SIs c m) = True"
| "plain (SArray inner m) = plain inner"
| "plain (SDict inner sKey m) = False"
| "plain (STuple list m) = list_all plain list"
| "plain (SObject dict m) =
     (distinct (map fst dict) \<and> ''__proto__'' \<notin> set (map fst dict) \<and>
      list_all (pred_prod (\<lambda>k. True) plain) dict)"
| "plain (SUnion list m) = False"
| "plain (SIntersect list m) = False"
| "plain (STransform inner callback m) = False"
| "plain (SOther t m) = False"

text \<open>\<open>extends h h'\<close>: the store \<open>h'\<close> is \<open>h\<close> with new objects added.\<close>

definition extends :: "heap \<Rightarrow> heap \<Rightarrow> bool" where
  "extends h h' = (take (length h) h' = h)"

text \<open>
  \<open>same_value S h v' v\<close>: in the store \<open>h\<close>, the values \<open>v'\<close> and \<open>v\<close> are equal as far as
  the schema \<open>S\<close> looks into them. For a kind without sub-schemas, and for null and
  undefined, they are identical. For an array, a tuple or an object they are containers
  with the same slots or keys, whose entries are equal in this sense where the schema
  describes them and identical where it does not.
\<close>

type_synonym same_fn = "heap \<Rightarrow> val \<Rightarrow> val \<Rightarrow> bool"

definition identical :: same_fn where
  "identical h v' v = (v' = v)"

definition same_with :: "same_fn \<Rightarrow> same_fn" where
  "same_with kind h v' v = (if isNullable v then v' = v else kind h v' v)"

definition same_slot :: "same_fn \<Rightarrow> heap \<Rightarrow> val option \<Rightarrow> val option \<Rightarrow> bool" where
  "same_slot inner h x' x =
     (case (x', x) of
        (None, None) \<Rightarrow> True
      | (Some e', Some e) \<Rightarrow> inner h e' e
      | _ \<Rightarrow> False)"

definition array_same :: "same_fn \<Rightarrow> same_fn" where
  "array_same inner h v' v =
     (case (deref h v', deref h v) of
        (Some (Arr xs'), Some (Arr xs)) \<Rightarrow> list_all2 (same_slot inner h) xs' xs
      | _ \<Rightarrow> False)"

definition tuple_same :: "same_fn list \<Rightarrow> same_fn" where
  "tuple_same list h v' v =
     (case (deref h v', deref h v) of
        (Some (Arr xs'), Some (Arr xs)) \<Rightarrow>
          length xs' = length xs \<and>
          (\<forall>i < length xs.
             (i < length list \<longrightarrow> same_slot (list ! i) h (xs' ! i) (xs ! i)) \<and>
             (length list \<le> i \<longrightarrow> xs' ! i = xs ! i))
      | _ \<Rightarrow> False)"

definition object_same :: "(string \<times> same_fn) list \<Rightarrow> same_fn" where
  "object_same dict h v' v =
     (case (deref h v', deref h v) of
        (Some (Obj ps'), Some (Obj ps)) \<Rightarrow>
          fst ` set ps' = fst ` set ps \<and>
          (\<forall>k \<in> fst ` set ps.
             case map_of dict k of
               Some s \<Rightarrow> s h (lookup ps' k) (lookup ps k)
             | None \<Rightarrow> lookup ps' k = lookup ps k)
      | _ \<Rightarrow> False)"

primrec same_value :: "schema \<Rightarrow> same_fn" where
  "same_value (SAny m) = identical"
| "same_value (SNever m) = identical"
| "same_value (SConst v m) = identical"
| "same_value (SString m) = identical"
| "same_value (SNumber m) = identical"
| "same_value (SBoolean m) = identical"
| "same_value (SIs c m) = identical"
| "same_value (SArray inner m) = same_with (array_same (same_value inner))"
| "same_value (SDict inner sKey m) = identical"
| "same_value (STuple list m) = same_with (tuple_same (map same_value list))"
| "same_value (SObject dict m) = same_with (object_same (map (map_prod id same_value) dict))"
| "same_value (SUnion list m) = identical"
| "same_value (SIntersect list m) = identical"
| "same_value (STransform inner callback m) = identical"
| "same_value (SOther t m) = identical"

text \<open>
  \<open>conformant S strict h v\<close>: in the store \<open>h\<close>, the value \<open>v\<close> has the shape of a value that
  the schema \<open>S\<close> has resolved in the mode \<open>strict\<close>. The entries of a container are always
  resolved in lenient mode. An object that an object schema has resolved owns every
  declared key that it inherits a member for, and no other key of that kind.
\<close>

type_synonym conf_fn = "bool \<Rightarrow> heap \<Rightarrow> val \<Rightarrow> bool"

definition conf_with :: "meta \<Rightarrow> conf_fn \<Rightarrow> conf_fn" where
  "conf_with m kind strict h v =
     (if isNullable v then \<not> required m \<and> isNullable (default_value m) else kind strict h v)"

definition array_conf :: "conf_fn \<Rightarrow> conf_fn" where
  "array_conf inner strict h v =
     (case deref h v of
        Some (Arr xs) \<Rightarrow> list_all (\<lambda>x. case x of None \<Rightarrow> True | Some e \<Rightarrow> inner False h e) xs
      | _ \<Rightarrow> False)"

definition tuple_conf :: "conf_fn list \<Rightarrow> conf_fn" where
  "tuple_conf list strict h v =
     (case deref h v of
        Some (Arr xs) \<Rightarrow>
          length list \<le> length xs \<and> (strict \<longrightarrow> length xs = length list) \<and>
          list_all (\<lambda>x. x \<noteq> None) xs \<and>
          (\<forall>i < length list. (list ! i) False h (slot_value (xs ! i)))
      | _ \<Rightarrow> False)"

definition object_conf :: "(string \<times> conf_fn) list \<Rightarrow> conf_fn" where
  "object_conf dict strict h v =
     (case deref h v of
        Some (Obj ps) \<Rightarrow>
          (strict \<longrightarrow> fst ` set ps \<subseteq> fst ` set dict) \<and>
          (\<forall>k \<in> fst ` set ps. inherited k \<longrightarrow> k \<in> fst ` set dict) \<and>
          list_all (\<lambda>p. snd p False h (lookup ps (fst p)) \<and>
                         (inherited (fst p) \<longrightarrow> has_key ps (fst p))) dict
      | _ \<Rightarrow> False)"

primrec conformant :: "schema \<Rightarrow> conf_fn" where
  "conformant (SAny m) = conf_with m (\<lambda>strict h v. True)"
| "conformant (SNever m) = conf_with m (\<lambda>strict h v. False)"
| "conformant (SConst c m) = conf_with m (\<lambda>strict h v. v = c)"
| "conformant (SString m) =
     conf_with m (\<lambda>strict h v. case v of Str s \<Rightarrow> True | _ \<Rightarrow> False)"
| "conformant (SNumber m) =
     conf_with m (\<lambda>strict h v. case v of Num n \<Rightarrow> True | _ \<Rightarrow> False)"
| "conformant (SBoolean m) =
     conf_with m (\<lambda>strict h v. case v of Bool b \<Rightarrow> True | _ \<Rightarrow> False)"
| "conformant (SIs c m) = conf_with m (\<lambda>strict h v. instanceOf h v c)"
| "conformant (SArray inner m) = conf_with m (array_conf (conformant inner))"
| "conformant (SDict inner sKey m) = conf_with m (\<lambda>strict h v. False)"
| "conformant (STuple list m) = conf_with m (tuple_conf (map conformant list))"
| "conformant (SObject dict m) =
     conf_with m (object_conf (map (map_prod id conformant) dict))"
| "conformant (SUnion list m) = conf_with m (\<lambda>strict h v. False)"
| "conformant (SIntersect list m) = conf_with m (\<lambda>strict h v. False)"
| "conformant (STransform inner callback m) = conf_with m (\<lambda>strict h v. False)"
| "conformant (SOther t m) = conf_with m (\<lambda>strict h v. False)"

text \<open>
  \<open>sound S\<close>: whatever \<open>S\<close> resolves, the result is conformant, nothing is adapted, and the
  store has only grown. \<open>settles S\<close>: \<open>S\<close> resolves every conformant value, to an equal
  value, and the store only grows.
\<close>

definition sound :: "schema \<Rightarrow> bool" where
  "sound S =
     (\<forall>st x hint v a st'. resolve S st x hint = (Inr (v, a), st') \<longrightarrow>
        conformant S hint (heap st') v \<and> extends (heap st) (heap st') \<and> a = Undefined)"

definition settles :: "schema \<Rightarrow> bool" where
  "settles S =
     (\<forall>st v hint. conformant S hint (heap st) v \<longrightarrow>
        (\<exists>v' st'. resolve S st v hint = (Inr (v', Undefined), st') \<and>
                  same_value S (heap st') v' v \<and> extends (heap st) (heap st')))"

section \<open>Properties\<close>

lemmas store_defs =
  deref_def alloc_def store_def isNullable_def isObject_def isArray_def slot_value_def
  array_index_def is_digit_def digits_val_def has_key_def lookup_def create_def remove_def
  Object_prototype_def inherited_def key_in_def read_def put_def write_slot_def
  index_key_def get_prop_def has_own_def has_in_def set_prop_def delete_prop_def own_keys_def
  array_length_def slice_spread_def instanceOf_def new_object_def new_array_def
  key_name_def prop_get_def prop_has_def prop_set_def

lemmas render_defs =
  ToString_def JSON_stringify_def JSON_quote_def json_char_def hex_digit_def json_text_def
  Number_toString_def dec_nat.simps cannot_convert_def

lemmas engine_defs =
  new_SchemaError_def throw_schema_def beyond_def expected_but_got_def call_def merge_def
  property_def any_resolver_def never_resolver_def
  const_resolver_def string_resolver_def number_resolver_def boolean_resolver_def
  is_resolver_def array_resolver_def dict_resolver_def tuple_resolver_def
  object_resolver_def union_resolver_def intersect_resolver_def transform_resolver_def
  resolver_types_def resolve_try_def rethrow_def resolve_with_def Schema_resolve_def schema_call_def no_meta_def Let_def

subsection \<open>The context slot\<close>

lemma resolve_with_current:
  "current (snd (resolve_with S cb st x hint)) = current st"
  by (simp add: resolve_with_def Let_def split: prod.splits sum.splits error.splits)

lemma resolve_current: "current (snd (resolve S st x hint)) = current st"
  by (cases S) (simp_all add: resolve_with_current)

subsection \<open>Calling a schema\<close>

text \<open>
  C10. Calling a schema node on an input returns the first component of what
  \<^verbatim>\<open>Schema.resolve\<close> returns for that input and node (in the same final state), and throws
  an error exactly when \<^verbatim>\<open>Schema.resolve\<close> throws it.
\<close>

theorem schema_call_refines_resolve:
  "(schema_call S st x = (Inr v, st') \<longleftrightarrow>
      (\<exists>a. Schema_resolve st x (Some S) False = (Inr (v, a), st'))) \<and>
   (schema_call S st x = (Inl e, st') \<longleftrightarrow> Schema_resolve st x (Some S) False = (Inl e, st'))"
  by (auto simp: schema_call_def split: prod.splits sum.splits)

theorem schema_call_refines_resolve_witness:
  "schema_call (SNumber no_meta) \<lparr>heap = [], current = None\<rparr> (Num 7)
     = (Inr (Num 7), \<lparr>heap = [], current = None\<rparr>) \<and>
   (\<exists>a. Schema_resolve \<lparr>heap = [], current = None\<rparr> (Num 7) (Some (SNumber no_meta)) False
     = (Inr (Num 7, a), \<lparr>heap = [], current = None\<rparr>))"
proof -
  have call: "schema_call (SNumber no_meta) \<lparr>heap = [], current = None\<rparr> (Num 7)
      = (Inr (Num 7), \<lparr>heap = [], current = None\<rparr>)"
    by (simp add: store_defs engine_defs)
  with schema_call_refines_resolve [of "SNumber no_meta" "\<lparr>heap = [], current = None\<rparr>"
      "Num 7" "Num 7" "\<lparr>heap = [], current = None\<rparr>"]
  show ?thesis by blast
qed

subsection \<open>Union\<close>

lemma union_loop_first_success:
  "all_fail pre st data = Some st1 \<Longrightarrow> s st1 data False = (Inr r, st2) \<Longrightarrow>
   union_loop st data (pre @ s # post) messages = (Inr r, st2)"
  by (induction pre arbitrary: st messages) (auto split: prod.splits sum.splits error.splits)

lemma union_loop_all_fail:
  "all_fail list st data = Some st1 \<Longrightarrow>
   union_loop st data list messages = expected_but_got st1 ''union'' data"
  by (induction list arbitrary: st messages) (auto split: prod.splits sum.splits error.splits)

text \<open>The messages that the loop collects have no effect on what it returns.\<close>

lemma union_loop_messages_unused:
  "union_loop st data list messages = union_loop st data list []"
proof (induction list arbitrary: st messages)
  case Nil
  show ?case by simp
next
  case (Cons inner rest)
  show ?case
    using Cons.IH [of _ "messages @ [_]"] Cons.IH [of _ "[] @ [_]"]
    by (simp split: prod.splits sum.splits error.splits)
qed

text \<open>
  C6. A union tries its alternatives in list order: when the alternatives \<open>pre\<close> before \<open>s\<close>
  all fail on the input and \<open>s\<close> then resolves it to \<open>r\<close>, the union returns \<open>r\<close>, whatever
  the alternatives \<open>post\<close> after \<open>s\<close> would do. The witness is
  \<^verbatim>\<open>resolve("a", union([const("b"), const("a")]))\<close>, which returns \<^verbatim>\<open>"a"\<close>.
\<close>

theorem union_first_match:
  assumes "\<not> isNullable data"
    and "all_fail (map resolve pre) (st\<lparr>current := Some (SUnion (pre @ s # post) m)\<rparr>) data
           = Some st1"
    and "resolve s st1 data False = (Inr r, st2)"
  shows "resolve (SUnion (pre @ s # post) m) st data hint = (Inr r, st2\<lparr>current := current st\<rparr>)"
  using assms(1) assms(3)
    union_loop_first_success [OF assms(2), of "resolve s" r st2 "map resolve post" "[]"]
  by (simp add: resolve_with_def resolve_try_def union_resolver_def)

theorem union_first_match_witness:
  "\<not> isNullable (Str ''a'') \<and>
   all_fail (map resolve [SConst (Str ''b'') no_meta])
     (\<lparr>heap = [], current = None\<rparr>
        \<lparr>current := Some (SUnion ([SConst (Str ''b'') no_meta] @ SConst (Str ''a'') no_meta # [])
                            no_meta)\<rparr>)
     (Str ''a'')
     = Some \<lparr>heap = [],
             current = Some (SUnion ([SConst (Str ''b'') no_meta] @ SConst (Str ''a'') no_meta # [])
                              no_meta)\<rparr> \<and>
   resolve (SUnion [SConst (Str ''b'') no_meta, SConst (Str ''a'') no_meta] no_meta)
     \<lparr>heap = [], current = None\<rparr> (Str ''a'') False
     = (Inr (Str ''a'', Undefined), \<lparr>heap = [], current = None\<rparr>)"
proof -
  let ?U = "SUnion ([SConst (Str ''b'') no_meta] @ SConst (Str ''a'') no_meta # []) no_meta"
  let ?st1 = "\<lparr>heap = [], current = Some ?U\<rparr>"
  have n: "\<not> isNullable (Str ''a'')" by (simp add: isNullable_def)
  have f: "all_fail (map resolve [SConst (Str ''b'') no_meta])
     (\<lparr>heap = [], current = None\<rparr>\<lparr>current := Some ?U\<rparr>) (Str ''a'') = Some ?st1"
    by (simp add: store_defs render_defs engine_defs)
  have s: "resolve (SConst (Str ''a'') no_meta) ?st1 (Str ''a'') False
      = (Inr (Str ''a'', Undefined), ?st1)"
    by (simp add: store_defs render_defs engine_defs)
  show ?thesis
    using n f union_first_match [OF n f s, of False] by simp
qed

text \<open>
  C3. The code at \<^verbatim>\<open>resolve("c", union([const("a"), const("b")]))\<close>: the two alternatives fail
  with \<^verbatim>\<open>expected a but got "c"\<close> and \<^verbatim>\<open>expected b but got "c"\<close>, and the union fails with
  \<^verbatim>\<open>expected union but got "c"\<close>, which holds neither of the two messages.
\<close>

theorem union_failure_message:
  "Schema_resolve \<lparr>heap = [], current = None\<rparr> (Str ''c'')
     (Some (SConst (Str ''a'') no_meta)) False =
   (Inl (SchemaError (''expected a but got '' @ [CHR 0x22, CHR ''c'', CHR 0x22])
      (Some (SConst (Str ''a'') no_meta))),
    \<lparr>heap = [], current = None\<rparr>) \<and>
   Schema_resolve \<lparr>heap = [], current = None\<rparr> (Str ''c'')
     (Some (SConst (Str ''b'') no_meta)) False =
   (Inl (SchemaError (''expected b but got '' @ [CHR 0x22, CHR ''c'', CHR 0x22])
      (Some (SConst (Str ''b'') no_meta))),
    \<lparr>heap = [], current = None\<rparr>) \<and>
   Schema_resolve \<lparr>heap = [], current = None\<rparr> (Str ''c'')
     (Some (SUnion [SConst (Str ''a'') no_meta, SConst (Str ''b'') no_meta] no_meta)) False =
   (Inl (SchemaError (''expected union but got '' @ [CHR 0x22, CHR ''c'', CHR 0x22])
      (Some (SUnion [SConst (Str ''a'') no_meta, SConst (Str ''b'') no_meta] no_meta))),
    \<lparr>heap = [], current = None\<rparr>)"
  by (simp add: store_defs render_defs engine_defs)

subsection \<open>Null and undefined input\<close>

lemma resolve_with_nullable:
  assumes "isNullable x"
  shows "resolve_with S cb st x hint =
     (if required (meta_of S)
      then (Inl (rethrow (st\<lparr>current := Some S\<rparr>)
                  (new_SchemaError (st\<lparr>current := Some S\<rparr>) ''missing required value'')), st)
      else if isNullable (default_value (meta_of S)) then (Inr (x, Undefined), st)
      else resolve_with S cb st (default_value (meta_of S)) hint)"
  using assms
  by (simp add: resolve_with_def resolve_try_def throw_schema_def Let_def)

lemma resolve_resolve_with: "\<exists>cb. resolve S = resolve_with S cb"
  by (cases S) auto

lemma missing_required_error:
  "renders S (heap st) \<Longrightarrow>
   rethrow (st\<lparr>current := Some S\<rparr>)
     (new_SchemaError (st\<lparr>current := Some S\<rparr>) ''missing required value'')
   = SchemaError ''missing required value'' (Some S)"
  by (simp add: rethrow_def new_SchemaError_def)

text \<open>
  C5 as stated fails: a schema that is not marked required can fail on \<open>undefined\<close> with
  \<open>missing required value\<close>. Here a tuple with default \<open>[]\<close> has a required element, and
  the error of the element comes out of the tuple with the same message.
\<close>

theorem missing_required_without_required_counterexample:
  "\<not> required (meta_of (STuple [SAny (no_meta\<lparr>required := True\<rparr>)]
                          (no_meta\<lparr>default_value := Ref 0\<rparr>))) \<and>
   resolve (STuple [SAny (no_meta\<lparr>required := True\<rparr>)] (no_meta\<lparr>default_value := Ref 0\<rparr>))
     \<lparr>heap = [Arr []], current = None\<rparr> Undefined False =
   (Inl (SchemaError ''missing required value''
      (Some (STuple [SAny (no_meta\<lparr>required := True\<rparr>)] (no_meta\<lparr>default_value := Ref 0\<rparr>)))),
    \<lparr>heap = [Arr []], current = None\<rparr>)"
  by (simp add: store_defs render_defs engine_defs)

text \<open>
  C5, amended. On a null or undefined input, a schema marked required fails with
  \<open>missing required value\<close>, whatever its default, provided the error can be constructed,
  that is, the schema converts to a string; a schema that is not required and has no
  non-null default returns the input unchanged, without any resolver being run (the
  equation holds for every kind, also for \<open>SNever\<close> and \<open>SOther\<close>, and the state is
  unchanged); otherwise the outcome is that of resolving the default in place of the input.
\<close>

theorem resolve_nullable:
  assumes "isNullable x"
  shows "(required (meta_of S) \<and> renders S (heap st) \<longrightarrow>
            resolve S st x hint = (Inl (SchemaError ''missing required value'' (Some S)), st)) \<and>
         (\<not> required (meta_of S) \<and> isNullable (default_value (meta_of S)) \<longrightarrow>
            resolve S st x hint = (Inr (x, Undefined), st)) \<and>
         (\<not> required (meta_of S) \<and> \<not> isNullable (default_value (meta_of S)) \<longrightarrow>
            resolve S st x hint = resolve S st (default_value (meta_of S)) hint)"
proof -
  obtain cb where "resolve S = resolve_with S cb"
    using resolve_resolve_with by blast
  with resolve_with_nullable [OF assms, of S cb st hint] missing_required_error [of S st]
  show ?thesis by simp
qed

theorem resolve_nullable_witness:
  "isNullable Undefined \<and>
   resolve (SNever (no_meta\<lparr>required := True, default_value := Num 1\<rparr>))
     \<lparr>heap = [], current = None\<rparr> Undefined False =
   (Inl (SchemaError ''missing required value''
      (Some (SNever (no_meta\<lparr>required := True, default_value := Num 1\<rparr>)))),
    \<lparr>heap = [], current = None\<rparr>) \<and>
   resolve (SNever no_meta) \<lparr>heap = [], current = None\<rparr> Undefined False =
   (Inr (Undefined, Undefined), \<lparr>heap = [], current = None\<rparr>) \<and>
   resolve (SNumber (no_meta\<lparr>default_value := Num 1\<rparr>)) \<lparr>heap = [], current = None\<rparr> Undefined False =
   resolve (SNumber (no_meta\<lparr>default_value := Num 1\<rparr>)) \<lparr>heap = [], current = None\<rparr> (Num 1) False"
  using resolve_nullable [of Undefined "SNever (no_meta\<lparr>required := True, default_value := Num 1\<rparr>)"
      "\<lparr>heap = [], current = None\<rparr>" False]
    resolve_nullable [of Undefined "SNever no_meta" "\<lparr>heap = [], current = None\<rparr>" False]
    resolve_nullable [of Undefined "SNumber (no_meta\<lparr>default_value := Num 1\<rparr>)"
      "\<lparr>heap = [], current = None\<rparr>" False]
  by (simp add: isNullable_def no_meta_def)

subsection \<open>The context slot while a schema is resolved\<close>

text \<open>
  Every resolver hands the slot back as it found it, because each nested
  \<^verbatim>\<open>Schema.resolve\<close> does. So whenever a resolver or the \<^verbatim>\<open>catch\<close> clause constructs an error,
  the slot names the schema being resolved at that level.
\<close>

lemma snd_throw_schema: "snd (throw_schema st msg) = st"
  by (simp add: throw_schema_def)

lemma snd_expected_but_got: "snd (expected_but_got st what data) = st"
  by (simp add: expected_but_got_def snd_throw_schema split: json.splits)

lemma current_expected_but_got: "current (snd (expected_but_got st what data)) = current st"
  by (simp add: snd_expected_but_got)

lemma current_call: "current (snd (call st callback v)) = current st"
  by (simp add: call_def snd_throw_schema split: prod.splits sum.splits thrown.splits)

lemma current_new_object: "current (snd (new_object st ps)) = current st"
  by (simp add: new_object_def alloc_def)

lemma current_new_array: "current (snd (new_array st xs)) = current st"
  by (simp add: new_array_def alloc_def)

lemma current_property:
  assumes "\<And>st x hint. current (snd (f st x hint)) = current st"
  shows "current (snd (property st data key f)) = current st"
proof (cases "prop_get (heap st) data key")
  case None
  then show ?thesis by (simp add: property_def beyond_def)
next
  case (Some x)
  obtain res st1 where c: "f st x False = (res, st1)" by (cases "f st x False")
  from assms [of st x False] c have "current st1 = current st" by simp
  with c Some show ?thesis
    by (cases res) (auto simp: property_def beyond_def split: prod.splits option.splits)
qed

lemma current_array_loop:
  assumes "\<And>st x hint. current (snd (f st x hint)) = current st"
  shows "current (snd (array_loop f st data idxs result)) = current st"
proof (induction idxs arbitrary: st result)
  case Nil
  show ?case by simp
next
  case (Cons index rest)
  obtain res st1 where p: "property st data (Index index) f = (res, st1)"
    by (cases "property st data (Index index) f")
  with current_property [of f st data "Index index", OF assms]
  have "current st1 = current st" by simp
  with p Cons.IH show ?case by (cases res) simp_all
qed

lemma current_dict_loop:
  assumes "\<And>st x hint. current (snd (f st x hint)) = current st"
    and "\<And>st x hint. current (snd (g st x hint)) = current st"
  shows "current (snd (dict_loop f g strict st data keys result)) = current st"
proof (induction keys arbitrary: st result)
  case Nil
  show ?case by simp
next
  case (Cons key rest)
  obtain kres st1 where k: "g st (Str key) False = (kres, st1)"
    by (cases "g st (Str key) False")
  from assms(2) [of st "Str key" False] k have c1: "current st1 = current st" by simp
  obtain res st2 where p: "property st1 data (Name key) f = (res, st2)"
    by (cases "property st1 data (Name key) f")
  with current_property [of f st1 data "Name key", OF assms(1)] c1
  have c2: "current st2 = current st" by simp
  show ?case
  proof (cases "has_own (heap st) data key")
    case False
    with Cons.IH show ?thesis by simp
  next
    case True
    show ?thesis
    proof (cases kres)
      case (Inl e)
      with True k c1 Cons.IH [of st1 result] show ?thesis
        by (cases e; cases strict) (simp_all add: beyond_def)
    next
      case (Inr r)
      obtain rKey adapted where r: "r = (rKey, adapted)" by (cases r)
      show ?thesis
      proof (cases res)
        case (Inl e)
        with True k Inr r p c2 show ?thesis by simp
      next
        case (Inr v)
        with True k \<open>kres = Inr r\<close> r p c2 Cons.IH show ?thesis
          by (simp add: beyond_def split: option.splits)
      qed
    qed
  qed
qed

lemma current_tuple_loop:
  assumes "\<And>f st x hint. f \<in> set list \<Longrightarrow> current (snd (f st x hint)) = current st"
  shows "current (snd (tuple_loop st data list index result)) = current st"
  using assms
proof (induction list arbitrary: st index result)
  case Nil
  show ?case by simp
next
  case (Cons f rest)
  obtain res st1 where p: "property st data (Index index) f = (res, st1)"
    by (cases "property st data (Index index) f")
  with current_property [of f st data "Index index"] Cons.prems
  have "current st1 = current st" by simp
  with p Cons.IH [of st1] Cons.prems show ?case by (cases res) simp_all
qed

lemma current_object_loop:
  assumes "\<And>f st x hint. f \<in> snd ` set dict \<Longrightarrow> current (snd (f st x hint)) = current st"
  shows "current (snd (object_loop st data dict result)) = current st"
  using assms
proof (induction dict arbitrary: st result)
  case Nil
  show ?case by simp
next
  case (Cons entry rest)
  obtain key f where e: "entry = (key, f)" by (cases entry)
  obtain res st1 where p: "property st data (Name key) f = (res, st1)"
    by (cases "property st data (Name key) f")
  with current_property [of f st data "Name key"] Cons.prems e
  have "current st1 = current st" by simp
  with p e Cons.IH [of st1] Cons.prems show ?case
    by (cases res) (simp_all add: beyond_def split: option.splits)
qed

lemma current_union_loop:
  assumes "\<And>f st x hint. f \<in> set list \<Longrightarrow> current (snd (f st x hint)) = current st"
  shows "current (snd (union_loop st data list messages)) = current st"
  using assms
proof (induction list arbitrary: st messages)
  case Nil
  show ?case by (simp add: current_expected_but_got)
next
  case (Cons f rest)
  obtain res st1 where p: "f st data False = (res, st1)" by (cases "f st data False")
  with Cons.prems [of f st data False] have "current st1 = current st" by simp
  with p Cons.IH [of st1] Cons.prems show ?case
    by (cases res) (simp_all add: beyond_def split: error.splits)
qed

lemma current_intersect_loop:
  assumes "\<And>f st x hint. f \<in> set list \<Longrightarrow> current (snd (f st x hint)) = current st"
  shows "current (snd (intersect_loop st data list result)) = current st"
  using assms
proof (induction list arbitrary: st result)
  case Nil
  show ?case by simp
next
  case (Cons f rest)
  obtain res st1 where p: "f st data True = (res, st1)" by (cases "f st data True")
  with Cons.prems [of f st data True] have "current st1 = current st" by simp
  with p Cons.IH [of st1] Cons.prems show ?case
    by (cases res) (simp_all add: beyond_def split: prod.splits option.splits)
qed

lemma current_array_resolver:
  assumes "\<And>st x hint. current (snd (f st x hint)) = current st"
  shows "current (snd (array_resolver f st data hint)) = current st"
proof -
  obtain res st1 where l:
    "array_loop f st data [0 ..< array_length (heap st) data] [] = (res, st1)"
    by (cases "array_loop f st data [0 ..< array_length (heap st) data] []")
  with current_array_loop [of f st data "[0 ..< array_length (heap st) data]" "[]", OF assms]
  have "current st1 = current st" by simp
  with l show ?thesis
    by (cases res)
       (simp_all add: array_resolver_def current_expected_but_got new_array_def alloc_def)
qed

lemma current_dict_resolver:
  assumes "\<And>st x hint. current (snd (f st x hint)) = current st"
    and "\<And>st x hint. current (snd (g st x hint)) = current st"
  shows "current (snd (dict_resolver f g st data strict)) = current st"
proof -
  obtain res st1 where l:
    "dict_loop f g strict st data (own_keys (heap st) data) [] = (res, st1)"
    by (cases "dict_loop f g strict st data (own_keys (heap st) data) []")
  with current_dict_loop [of f g strict st data "own_keys (heap st) data" "[]", OF assms]
  have "current st1 = current st" by simp
  with l show ?thesis
    by (cases res)
       (simp_all add: dict_resolver_def current_expected_but_got new_object_def alloc_def)
qed

lemma current_tuple_resolver:
  assumes "\<And>f st x hint. f \<in> set list \<Longrightarrow> current (snd (f st x hint)) = current st"
  shows "current (snd (tuple_resolver list st data strict)) = current st"
proof -
  obtain res st1 where l: "tuple_loop st data list 0 [] = (res, st1)"
    by (cases "tuple_loop st data list 0 []")
  with current_tuple_loop [of list st data 0 "[]"] assms
  have "current st1 = current st" by simp
  with l show ?thesis
    by (cases res)
       (simp_all add: tuple_resolver_def current_expected_but_got new_array_def alloc_def)
qed

lemma current_object_resolver:
  assumes "\<And>f st x hint. f \<in> snd ` set dict \<Longrightarrow> current (snd (f st x hint)) = current st"
  shows "current (snd (object_resolver dict st data strict)) = current st"
proof -
  obtain res st1 where l: "object_loop st data dict [] = (res, st1)"
    by (cases "object_loop st data dict []")
  with current_object_loop [of dict st data "[]"] assms
  have "current st1 = current st" by simp
  with l show ?thesis
    by (cases res)
       (simp_all add: object_resolver_def current_expected_but_got new_object_def alloc_def
          beyond_def split: option.splits)
qed

lemma current_union_resolver:
  assumes "\<And>f st x hint. f \<in> set list \<Longrightarrow> current (snd (f st x hint)) = current st"
  shows "current (snd (union_resolver list st data hint)) = current st"
  using current_union_loop [of list st data "[]"] assms by (simp add: union_resolver_def)

lemma current_intersect_resolver:
  assumes "\<And>f st x hint. f \<in> set list \<Longrightarrow> current (snd (f st x hint)) = current st"
  shows "current (snd (intersect_resolver list st data hint)) = current st"
proof -
  obtain res st1 where l: "intersect_loop st data list [] = (res, st1)"
    by (cases "intersect_loop st data list []")
  with current_intersect_loop [of list st data "[]"] assms
  have "current st1 = current st" by simp
  with l show ?thesis
    by (cases res)
       (simp_all add: intersect_resolver_def new_object_def alloc_def beyond_def
          split: option.splits)
qed

lemma current_transform_resolver:
  assumes "\<And>st x hint. current (snd (f st x hint)) = current st"
  shows "current (snd (transform_resolver f callback st data hint)) = current st"
proof -
  obtain res st1 where i: "f st data True = (res, st1)" by (cases "f st data True")
  with assms [of st data True] have c1: "current st1 = current st" by simp
  show ?thesis
  proof (cases res)
    case (Inl e)
    with i c1 show ?thesis by (simp add: transform_resolver_def)
  next
    case (Inr r)
    obtain result adapted0 where r: "r = (result, adapted0)" by (cases r)
    show ?thesis
    proof (cases "isObject (heap st1) data")
      case True
      show ?thesis
      proof (cases "transform_loop (heap st1) data result (own_keys (heap st1) result) []")
        case None
        with i Inr r True c1 show ?thesis by (simp add: transform_resolver_def beyond_def)
      next
        case (Some th)
        obtain temp_props h2 where th: "th = (temp_props, h2)" by (cases th)
        obtain temp st3 where n: "new_object (st1\<lparr>heap := h2\<rparr>) temp_props = (temp, st3)"
          by (cases "new_object (st1\<lparr>heap := h2\<rparr>) temp_props")
        with current_new_object [of "st1\<lparr>heap := h2\<rparr>" temp_props] c1
        have c3: "current st3 = current st" by simp
        obtain res4 st4 where c: "call st3 callback temp = (res4, st4)"
          by (cases "call st3 callback temp")
        with current_call [of st3 callback temp] c3 have c4: "current st4 = current st" by simp
        show ?thesis
        proof (cases res4)
          case (Inl e)
          with i Inr r True Some th n c c4 show ?thesis by (simp add: transform_resolver_def)
        next
          case (Inr r1)
          show ?thesis
          proof (cases "Object_assign_store (heap st4) data r1 (own_keys (heap st4) r1)")
            case None
            with i \<open>res = Inr r\<close> r True Some th n c Inr c4 show ?thesis
              by (simp add: transform_resolver_def beyond_def)
          next
            case (Some h5)
            obtain res6 st6 where d: "call (st4\<lparr>heap := h5\<rparr>) callback result = (res6, st6)"
              by (cases "call (st4\<lparr>heap := h5\<rparr>) callback result")
            with current_call [of "st4\<lparr>heap := h5\<rparr>" callback result] c4
            have "current st6 = current st" by simp
            with i \<open>res = Inr r\<close> r True
              \<open>transform_loop (heap st1) data result (own_keys (heap st1) result) [] = Some th\<close>
              th n c Inr Some d
            show ?thesis
              by (cases res6) (simp_all add: transform_resolver_def)
          qed
        qed
      qed
    next
      case False
      obtain res2 st2 where c: "call st1 callback result = (res2, st2)"
        by (cases "call st1 callback result")
      with current_call [of st1 callback result] c1 have c2: "current st2 = current st" by simp
      show ?thesis
      proof (cases res2)
        case (Inl e)
        with i Inr r False c c2 show ?thesis by (simp add: transform_resolver_def)
      next
        case (Inr r1)
        let ?ad = "if adapted0 = Undefined then data else adapted0"
        obtain res3 st3 where d: "call st2 callback ?ad = (res3, st3)"
          by (cases "call st2 callback ?ad")
        with current_call [of st2 callback ?ad] c2 have "current st3 = current st" by simp
        with i \<open>res = Inr r\<close> r False c Inr d show ?thesis
          by (cases res3) (simp_all add: transform_resolver_def)
      qed
    qed
  qed
qed

lemma new_SchemaError_context:
  "new_SchemaError st msg = SchemaError msg' ctx \<Longrightarrow> ctx = current st"
  by (auto simp: new_SchemaError_def split: option.splits if_splits)

lemma resolve_with_error_context:
  assumes "\<And>st x hint. current (snd (cb st x hint)) = current st"
    and "resolve_with S (Some cb) st x hint = (Inl (SchemaError msg ctx), st')"
  shows "ctx = Some S"
proof -
  let ?st1 = "st\<lparr>current := Some S\<rparr>"
  obtain res st2 where t: "resolve_try S (Some cb) ?st1 x hint = (res, st2)"
    by (cases "resolve_try S (Some cb) ?st1 x hint")
  have "current (snd (resolve_try S (Some cb) ?st1 x hint)) = current ?st1"
    by (simp add: resolve_try_def throw_schema_def assms(1) Let_def)
  with t have c: "current st2 = Some S" by simp
  from assms(2) t c show ?thesis
    by (cases res) (auto simp: resolve_with_def rethrow_def Let_def split: error.splits
        dest: new_SchemaError_context)
qed

lemma resolve_error_context:
  assumes "resolve S st x hint = (Inl (SchemaError msg ctx), st')"
  shows "ctx = Some S"
proof (cases S)
  case (SAny m)
  with assms show ?thesis
    by (auto intro: resolve_with_error_context [where cb = any_resolver]
        simp: any_resolver_def)
next
  case (SNever m)
  with assms show ?thesis
    by (auto intro: resolve_with_error_context [where cb = never_resolver]
        simp: never_resolver_def current_expected_but_got)
next
  case (SConst v m)
  have "current (snd (const_resolver v st x hint)) = current st" for st x hint
    by (simp add: const_resolver_def current_expected_but_got split: option.splits)
  with SConst assms show ?thesis
    by (auto intro: resolve_with_error_context [where cb = "const_resolver v"])
next
  case (SString m)
  have "current (snd (string_resolver st x hint)) = current st" for st x hint
    by (cases x) (simp_all add: string_resolver_def current_expected_but_got)
  with SString assms show ?thesis
    by (auto intro: resolve_with_error_context [where cb = string_resolver])
next
  case (SNumber m)
  have "current (snd (number_resolver st x hint)) = current st" for st x hint
    by (cases x) (simp_all add: number_resolver_def current_expected_but_got)
  with SNumber assms show ?thesis
    by (auto intro: resolve_with_error_context [where cb = number_resolver])
next
  case (SBoolean m)
  have "current (snd (boolean_resolver st x hint)) = current st" for st x hint
    by (cases x) (simp_all add: boolean_resolver_def current_expected_but_got)
  with SBoolean assms show ?thesis
    by (auto intro: resolve_with_error_context [where cb = boolean_resolver])
next
  case (SIs c m)
  have "current (snd (is_resolver c st x hint)) = current st" for st x hint
    by (simp add: is_resolver_def snd_throw_schema split: option.splits)
  with SIs assms show ?thesis
    by (auto intro: resolve_with_error_context [where cb = "is_resolver c"])
next
  case (SArray inner m)
  with assms show ?thesis
    by (auto intro!: resolve_with_error_context [where cb = "array_resolver (resolve inner)"]
        current_array_resolver simp: resolve_current)
next
  case (SDict inner sKey m)
  with assms show ?thesis
    by (auto intro!: resolve_with_error_context
          [where cb = "dict_resolver (resolve inner) (resolve sKey)"]
        current_dict_resolver simp: resolve_current)
next
  case (STuple list m)
  with assms show ?thesis
    by (auto intro!: resolve_with_error_context [where cb = "tuple_resolver (map resolve list)"]
        current_tuple_resolver simp: resolve_current)
next
  case (SObject dict m)
  with assms show ?thesis
    by (auto intro!: resolve_with_error_context
          [where cb = "object_resolver (map (map_prod id resolve) dict)"]
        current_object_resolver simp: resolve_current)
next
  case (SUnion list m)
  with assms show ?thesis
    by (auto intro!: resolve_with_error_context [where cb = "union_resolver (map resolve list)"]
        current_union_resolver simp: resolve_current)
next
  case (SIntersect list m)
  with assms show ?thesis
    by (auto intro!: resolve_with_error_context
          [where cb = "intersect_resolver (map resolve list)"]
        current_intersect_resolver simp: resolve_current)
next
  case (STransform inner callback m)
  with assms show ?thesis
    by (auto intro!: resolve_with_error_context
          [where cb = "transform_resolver (resolve inner) callback"]
        current_transform_resolver simp: resolve_current)
next
  case (SOther t m)
  with assms show ?thesis
    by (auto simp: resolve_with_def resolve_try_def throw_schema_def rethrow_def Let_def
        new_SchemaError_def beyond_def split: if_splits)
qed

text \<open>
  C8. Whatever the outcome of \<^verbatim>\<open>Schema.resolve\<close> (a result, an error, or the early return
  for a missing schema or a null input), the slot \<^verbatim>\<open>SchemaError.current\<close> holds after the
  call what it held before it. Nested and sibling calls are therefore properly nested:
  a \<^verbatim>\<open>SchemaError\<close> that comes out of resolving \<open>S\<close> was constructed while the slot named \<open>S\<close>,
  also when it stems from a nested schema.
\<close>

theorem resolve_restores_current:
  "current (snd (resolve S st x hint)) = current st \<and>
   current (snd (Schema_resolve st x (Some S) hint)) = current st \<and>
   current (snd (Schema_resolve st x None hint)) = current st \<and>
   (\<forall>msg ctx st'. resolve S st x hint = (Inl (SchemaError msg ctx), st') \<longrightarrow> ctx = Some S)"
  by (auto simp: Schema_resolve_def resolve_current dest: resolve_error_context)

theorem resolve_restores_current_witness:
  "resolve (SObject [(''a'', SString no_meta)] no_meta)
     \<lparr>heap = [Obj [(''a'', Num 1)]], current = Some (SAny no_meta)\<rparr> (Ref 0) False
     = (Inl (SchemaError ''expected string but got 1''
               (Some (SObject [(''a'', SString no_meta)] no_meta))),
        \<lparr>heap = [Obj [(''a'', Num 1)]], current = Some (SAny no_meta)\<rparr>) \<and>
   current (snd (resolve (SObject [(''a'', SString no_meta)] no_meta)
     \<lparr>heap = [Obj [(''a'', Num 1)]], current = Some (SAny no_meta)\<rparr> (Ref 0) False))
     = Some (SAny no_meta)"
proof -
  let ?S = "SObject [(''a'', SString no_meta)] no_meta"
  let ?st = "\<lparr>heap = [Obj [(''a'', Num 1)]], current = Some (SAny no_meta)\<rparr>"
  have r: "resolve ?S ?st (Ref 0) False
     = (Inl (SchemaError ''expected string but got 1'' (Some ?S)), ?st)"
    by (simp add: store_defs render_defs engine_defs)
  note all = resolve_restores_current [of ?S ?st "Ref 0" False]
  from all have c: "current (snd (resolve ?S ?st (Ref 0) False)) = current ?st"
    by (rule conjunct1)
  from all have "\<forall>msg ctx st'. resolve ?S ?st (Ref 0) False = (Inl (SchemaError msg ctx), st') \<longrightarrow>
           ctx = Some ?S"
    by (rule conjunct2 [OF conjunct2 [OF conjunct2]])
  with c r show ?thesis by simp
qed

subsection \<open>Object: keys that the schema does not declare\<close>

text \<open>
  C7. The code at the claim's example and at \<^verbatim>\<open>{a: 1, toString: 2}\<close>, both against
  \<^verbatim>\<open>object({a: number()})\<close>. The example gives \<^verbatim>\<open>{a: 1, b: 2}\<close> in lenient mode and \<^verbatim>\<open>{a: 1}\<close>
  in strict mode, as the claim says. At the second input the undeclared key \<^verbatim>\<open>toString\<close>
  is not copied in lenient mode: the result, the object at \<open>Ref 1\<close>, is \<^verbatim>\<open>{a: 1}\<close>, because
  \<^verbatim>\<open>merge\<close> skips every key that is \<^verbatim>\<open>in\<close> the result, and the empty result object inherits
  \<^verbatim>\<open>toString\<close>.
\<close>

theorem object_lenient_inherited_key:
  "resolve (SObject [(''a'', SNumber no_meta)] no_meta)
     \<lparr>heap = [Obj [(''a'', Num 1), (''b'', Num 2)]], current = None\<rparr> (Ref 0) False =
   (Inr (Ref 1, Undefined),
    \<lparr>heap = [Obj [(''a'', Num 1), (''b'', Num 2)], Obj [(''a'', Num 1), (''b'', Num 2)]],
      current = None\<rparr>) \<and>
   resolve (SObject [(''a'', SNumber no_meta)] no_meta)
     \<lparr>heap = [Obj [(''a'', Num 1), (''b'', Num 2)]], current = None\<rparr> (Ref 0) True =
   (Inr (Ref 1, Undefined),
    \<lparr>heap = [Obj [(''a'', Num 1), (''b'', Num 2)], Obj [(''a'', Num 1)]], current = None\<rparr>) \<and>
   resolve (SObject [(''a'', SNumber no_meta)] no_meta)
     \<lparr>heap = [Obj [(''a'', Num 1), (''toString'', Num 2)]], current = None\<rparr> (Ref 0) False =
   (Inr (Ref 1, Undefined),
    \<lparr>heap = [Obj [(''a'', Num 1), (''toString'', Num 2)], Obj [(''a'', Num 1)]],
      current = None\<rparr>)"
  by (simp add: store_defs render_defs engine_defs)

subsection \<open>Dict: what happens to the input map\<close>

text \<open>
  C9. The code at the input \<^verbatim>\<open>{a: 1, b: 2}\<close> and at the input \<^verbatim>\<open>{a: 1, "__proto__": 2}\<close> (an own
  property, as \<^verbatim>\<open>JSON.parse\<close> creates it), both against \<^verbatim>\<open>dict(number())\<close>, whose key schema
  is \<^verbatim>\<open>any()\<close>. In both runs every entry is resolved and deleted from the input map, the
  object at \<open>Ref 0\<close>. The result, the object at \<open>Ref 1\<close>, holds both entries in the first
  run. In the second run it holds \<^verbatim>\<open>a\<close> only: \<^verbatim>\<open>result[rKey] = ...\<close> with the key \<^verbatim>\<open>__proto__\<close>
  runs the setter that the result object inherits, which ignores the number and creates
  no property.
\<close>

theorem dict_proto_entry_lost:
  "resolve (SDict (SNumber no_meta) (SAny no_meta) no_meta)
     \<lparr>heap = [Obj [(''a'', Num 1), (''b'', Num 2)]], current = None\<rparr> (Ref 0) False =
   (Inr (Ref 1, Undefined),
    \<lparr>heap = [Obj [], Obj [(''a'', Num 1), (''b'', Num 2)]], current = None\<rparr>) \<and>
   resolve (SDict (SNumber no_meta) (SAny no_meta) no_meta)
     \<lparr>heap = [Obj [(''a'', Num 1), (''__proto__'', Num 2)]], current = None\<rparr> (Ref 0) False =
   (Inr (Ref 1, Undefined),
    \<lparr>heap = [Obj [], Obj [(''a'', Num 1)]], current = None\<rparr>)"
  by (simp add: store_defs render_defs engine_defs)

subsection \<open>Property lists\<close>

lemma has_key_map_of: "has_key ps k \<longleftrightarrow> map_of ps k \<noteq> None"
  by (cases "map_of ps k") (simp_all only: has_key_def option.case option.distinct simp_thms)

lemma has_key_conv: "has_key ps k \<longleftrightarrow> k \<in> fst ` set ps"
  using map_of_eq_None_iff [of ps k] by (simp only: has_key_map_of) blast

lemma lookup_map_of: "map_of ps = map_of qs \<Longrightarrow> lookup ps k = lookup qs k"
  by (simp add: lookup_def)

lemma map_of_replace_prop:
  "map_of ps k = Some w \<Longrightarrow>
   map_of (replace_prop k v ps) k' = (if k' = k then Some v else map_of ps k')"
  by (induction ps) (auto split: if_splits)

lemma map_of_insert_index:
  "map_of ps k = None \<Longrightarrow>
   map_of (insert_index n k v ps) k' = (if k' = k then Some v else map_of ps k')"
  by (induction ps) (auto split: option.splits if_splits)

lemma map_of_snoc:
  "map_of ps k = None \<Longrightarrow>
   map_of (ps @ [(k, v)]) k' = (if k' = k then Some v else map_of ps k')"
  by (induction ps) (auto split: if_splits)

lemma map_of_create:
  "map_of ps k = None \<Longrightarrow> map_of (create ps k v) k' = (if k' = k then Some v else map_of ps k')"
  by (simp add: create_def map_of_insert_index map_of_snoc split: option.splits del: map_of_append)

text \<open>
  What an assignment does to the own properties: it sets the key, unless the key is
  \<^verbatim>\<open>__proto__\<close> and the object has no own property of that name.
\<close>

lemma map_of_put_at:
  assumes "put ps k v = Some ps'"
  shows "map_of ps' k' =
     (if k' = k \<and> (k = ''__proto__'' \<longrightarrow> has_key ps k) then Some v else map_of ps k')"
proof (cases "map_of ps k")
  case None
  then have "\<not> has_key ps k" by (simp only: has_key_map_of) simp
  with None assms show ?thesis
    by (auto simp: put_def map_of_create split: if_splits val.splits)
next
  case (Some w)
  then have "has_key ps k" by (simp only: has_key_map_of) simp
  with Some assms show ?thesis
    by (auto simp: put_def map_of_replace_prop)
qed

lemma put_ordinary: "k \<noteq> ''__proto__'' \<Longrightarrow> \<exists>ps'. put ps k v = Some ps'"
  by (simp add: put_def)

lemma map_of_put:
  "put ps k v = Some ps' \<Longrightarrow> k \<noteq> ''__proto__'' \<Longrightarrow> map_of ps' = (map_of ps)(k \<mapsto> v)"
  by (rule ext) (simp add: map_of_put_at)

lemma keys_put:
  "put ps k v = Some ps' \<Longrightarrow> k \<noteq> ''__proto__'' \<Longrightarrow> fst ` set ps' = insert k (fst ` set ps)"
  using arg_cong [OF map_of_put [of ps k v ps'], of dom]
  by (simp add: dom_map_of_conv_image_fst)


lemma map_of_remove: "map_of (remove ps k) = (map_of ps)(k := None)"
  by (induction ps) (auto simp: remove_def)

lemma keys_remove: "fst ` set (remove ps k) = fst ` set ps - {k}"
  by (auto simp: remove_def)

lemma inherited_proto: "inherited ''__proto__''"
  by (simp add: inherited_def Object_prototype_def)



lemma merge_loop_lookup:
  assumes "merge_loop h acc data ks = Some acc'"
  shows "map_of acc' k =
     (case map_of acc k of
        Some v \<Rightarrow> Some v
      | None \<Rightarrow> if k \<in> set ks \<and> \<not> inherited k then get_prop h data k else None)"
  using assms
proof (induction ks arbitrary: acc)
  case Nil
  then show ?case by (simp split: option.splits)
next
  case (Cons key ks)
  show ?case
  proof (cases "key_in acc key")
    case True
    with Cons.prems have r: "merge_loop h acc data ks = Some acc'" by simp
    from True have "has_key acc key \<or> inherited key" by (simp add: key_in_def)
    then show ?thesis
      using Cons.IH [OF r] by (auto simp: has_key_map_of split: option.splits)
  next
    case False
    then have nk: "map_of acc key = None" and ni: "\<not> inherited key"
      by (simp_all add: key_in_def has_key_map_of)
    from ni have np: "key \<noteq> ''__proto__''" using inherited_proto by auto
    from False Cons.prems obtain x acc1 where
      g: "get_prop h data key = Some x" and p: "put acc key x = Some acc1"
      and r: "merge_loop h acc1 data ks = Some acc'"
      by (auto split: option.splits)
    from map_of_put_at [OF p, of k] np
    have m1: "map_of acc1 k = (if k = key then Some x else map_of acc k)" by simp
    show ?thesis
      using Cons.IH [OF r] m1 nk ni g by (auto split: option.splits)
  qed
qed

lemma map_of_merge:
  "merge h acc data = Some acc' \<Longrightarrow>
   map_of acc' k =
     (case map_of acc k of
        Some v \<Rightarrow> Some v
      | None \<Rightarrow> if k \<in> set (own_keys h data) \<and> \<not> inherited k then get_prop h data k else None)"
  by (simp add: merge_def merge_loop_lookup)

subsection \<open>Intersect\<close>







subsection \<open>Dict: a key that fails the key schema\<close>

lemma dict_loop_append:
  "dict_loop inner sKey strict st data (xs @ ys) result =
     (case dict_loop inner sKey strict st data xs result of
        (Inl e, st') \<Rightarrow> (Inl e, st')
      | (Inr result', st') \<Rightarrow> dict_loop inner sKey strict st' data ys result')"
  by (induction xs arbitrary: st result)
     (auto simp: beyond_def split: prod.splits sum.splits error.splits option.splits)

lemma resolve_dict_loop:
  assumes "\<not> isNullable data" and "isObject (heap st) data"
  shows "resolve (SDict inner sKey m) st data strict =
     (case dict_loop (resolve inner) (resolve sKey) strict
             (st\<lparr>current := Some (SDict inner sKey m)\<rparr>) data (own_keys (heap st) data) [] of
        (Inl e, st') \<Rightarrow> (Inl (rethrow st' e), st'\<lparr>current := current st\<rparr>)
      | (Inr result, st') \<Rightarrow>
          (Inr (Ref (length (heap st')), Undefined),
           st'\<lparr>heap := heap st' @ [Obj result], current := current st\<rparr>))"
  using assms
  by (simp add: resolve_with_def resolve_try_def dict_resolver_def new_object_def alloc_def
      Let_def split: prod.splits sum.splits)

text \<open>
  C1 as stated fails: the code has the two modes the other way round. On the input
  \<^verbatim>\<open>{b: 2}\<close> and \<^verbatim>\<open>dict(number(), const("a"))\<close> the key \<^verbatim>\<open>b\<close> fails the key schema; lenient
  resolution throws that error, and strict resolution returns the empty map and leaves the
  entry in the input.
\<close>

theorem dict_key_failure_counterexample:
  "resolve (SDict (SNumber no_meta) (SConst (Str ''a'') no_meta) no_meta)
     \<lparr>heap = [Obj [(''b'', Num 2)]], current = None\<rparr> (Ref 0) False =
   (Inl (SchemaError (''expected a but got '' @ [CHR 0x22, CHR ''b'', CHR 0x22])
      (Some (SDict (SNumber no_meta) (SConst (Str ''a'') no_meta) no_meta))),
    \<lparr>heap = [Obj [(''b'', Num 2)]], current = None\<rparr>) \<and>
   resolve (SDict (SNumber no_meta) (SConst (Str ''a'') no_meta) no_meta)
     \<lparr>heap = [Obj [(''b'', Num 2)]], current = None\<rparr> (Ref 0) True =
   (Inr (Ref 1, Undefined),
    \<lparr>heap = [Obj [(''b'', Num 2)], Obj []], current = None\<rparr>)"
  by (simp add: store_defs render_defs engine_defs)

text \<open>
  C1, amended. Let the loop of the dict resolver have gone through the keys \<open>pre\<close>, with
  the result \<open>result1\<close> so far, and reach a key, still in the input map, on which the key
  schema throws \<open>e\<close>, leaving the state \<open>st2\<close>.

  In strict mode the entry is skipped silently: \<^verbatim>\<open>Schema.resolve\<close> on the dict schema goes
  on as if the loop had only the remaining keys to do, from the state \<open>st2\<close> and the
  result \<open>result1\<close>. So nothing is added to the result for the entry, the entry is neither
  rewritten nor deleted in the input map, and \<open>e\<close> is lost: when the remaining keys give
  \<open>result2\<close>, \<^verbatim>\<open>Schema.resolve\<close> returns a new map with the properties \<open>result2\<close>; it throws
  only what a remaining key throws. If the key is the last one, the new map is \<open>result1\<close>
  and the store is that of \<open>st2\<close>.

  In lenient mode \<^verbatim>\<open>Schema.resolve\<close> on the dict schema throws what its \<^verbatim>\<open>catch\<close> clause makes
  of \<open>e\<close>, in the state \<open>st2\<close> with the slot restored: an error with the message of \<open>e\<close>
  when the dict schema converts to a string.
\<close>

theorem dict_key_failure:
  assumes "\<not> isNullable data" and "isObject (heap st) data"
    and "own_keys (heap st) data = pre @ key # keys"
    and "dict_loop (resolve inner) (resolve sKey) strict
           (st\<lparr>current := Some (SDict inner sKey m)\<rparr>) data pre [] = (Inr result1, st1)"
    and "has_own (heap st1) data key"
    and "resolve sKey st1 (Str key) False = (Inl e, st2)" and "e \<noteq> Beyond"
  shows "(strict \<longrightarrow>
            (\<forall>result2 st3.
               dict_loop (resolve inner) (resolve sKey) strict st2 data keys result1
                 = (Inr result2, st3) \<longrightarrow>
               resolve (SDict inner sKey m) st data strict =
                 (Inr (Ref (length (heap st3)), Undefined),
                  st3\<lparr>heap := heap st3 @ [Obj result2], current := current st\<rparr>)) \<and>
            (\<forall>e2 st3.
               dict_loop (resolve inner) (resolve sKey) strict st2 data keys result1
                 = (Inl e2, st3) \<longrightarrow>
               resolve (SDict inner sKey m) st data strict =
                 (Inl (rethrow st3 e2), st3\<lparr>current := current st\<rparr>)) \<and>
            (keys = [] \<longrightarrow>
               resolve (SDict inner sKey m) st data strict =
                 (Inr (Ref (length (heap st2)), Undefined),
                  st2\<lparr>heap := heap st2 @ [Obj result1], current := current st\<rparr>))) \<and>
         (\<not> strict \<longrightarrow>
            resolve (SDict inner sKey m) st data strict =
              (Inl (rethrow st2 e), st2\<lparr>current := current st\<rparr>) \<and>
            (renders (SDict inner sKey m) (heap st2) \<longrightarrow> message (rethrow st2 e) = message e))"
proof -
  let ?D = "SDict inner sKey m"
  let ?st0 = "st\<lparr>current := Some ?D\<rparr>"
  have loop: "dict_loop (resolve inner) (resolve sKey) strict ?st0 data (pre @ key # keys) [] =
         (if strict then dict_loop (resolve inner) (resolve sKey) strict st2 data keys result1
          else (Inl e, st2))"
    using assms(4-7) by (cases e) (simp_all add: dict_loop_append)
  note res = resolve_dict_loop [OF assms(1,2), of inner sKey m strict, unfolded assms(3) loop]
  have "current st1 = current ?st0"
    using current_dict_loop [of "resolve inner" "resolve sKey" strict ?st0 data pre "[]"]
      assms(4) by (simp add: resolve_current)
  moreover have "current st2 = current st1"
    using resolve_current [of sKey st1 "Str key" False] assms(6) by simp
  ultimately have c: "current st2 = Some ?D" by simp
  have msg: "message (rethrow st2 e) = message e" if "renders ?D (heap st2)"
    using that c assms(7) by (cases e) (simp_all add: rethrow_def new_SchemaError_def)
  show ?thesis
  proof (cases strict)
    case True
    with res show ?thesis by simp
  next
    case False
    with res msg show ?thesis by simp
  qed
qed

theorem dict_key_failure_witness:
  "\<not> isNullable (Ref 0) \<and>
   isObject [Obj [(''a'', Num 1), (''b'', Num 2)]] (Ref 0) \<and>
   resolve (SDict (SNumber no_meta) (SConst (Str ''a'') no_meta) no_meta)
     \<lparr>heap = [Obj [(''a'', Num 1), (''b'', Num 2)]], current = None\<rparr> (Ref 0) True =
   (Inr (Ref 1, Undefined),
    \<lparr>heap = [Obj [(''b'', Num 2)], Obj [(''a'', Num 1)]], current = None\<rparr>) \<and>
   resolve (SDict (SNumber no_meta) (SConst (Str ''a'') no_meta) no_meta)
     \<lparr>heap = [Obj [(''a'', Num 1), (''b'', Num 2)]], current = None\<rparr> (Ref 0) False =
   (Inl (SchemaError (''expected a but got '' @ [CHR 0x22, CHR ''b'', CHR 0x22])
      (Some (SDict (SNumber no_meta) (SConst (Str ''a'') no_meta) no_meta))),
    \<lparr>heap = [Obj [(''b'', Num 2)]], current = None\<rparr>)"
proof -
  let ?D = "SDict (SNumber no_meta) (SConst (Str ''a'') no_meta) no_meta"
  let ?st = "\<lparr>heap = [Obj [(''a'', Num 1), (''b'', Num 2)]], current = None\<rparr>"
  let ?st1 = "\<lparr>heap = [Obj [(''b'', Num 2)]], current = Some ?D\<rparr>"
  let ?e = "SchemaError (''expected a but got '' @ [CHR 0x22, CHR ''b'', CHR 0x22])
              (Some (SConst (Str ''a'') no_meta))"
  have n: "\<not> isNullable (Ref 0)" by (simp add: isNullable_def)
  have ob: "isObject (heap ?st) (Ref 0)" by (simp add: store_defs)
  have keys: "own_keys (heap ?st) (Ref 0) = [''a''] @ ''b'' # []" by (simp add: store_defs)
  have pre: "dict_loop (resolve (SNumber no_meta)) (resolve (SConst (Str ''a'') no_meta)) strict
      (?st\<lparr>current := Some ?D\<rparr>) (Ref 0) [''a''] [] = (Inr [(''a'', Num 1)], ?st1)" for strict
    by (simp add: store_defs render_defs engine_defs)
  have has: "has_own (heap ?st1) (Ref 0) ''b''" by (simp add: store_defs)
  have fail: "resolve (SConst (Str ''a'') no_meta) ?st1 (Str ''b'') False = (Inl ?e, ?st1)"
    by (simp add: store_defs render_defs engine_defs)
  have nb: "?e \<noteq> Beyond" by simp
  have r: "rethrow ?st1 ?e =
      SchemaError (''expected a but got '' @ [CHR 0x22, CHR ''b'', CHR 0x22]) (Some ?D)"
    by (simp add: rethrow_def new_SchemaError_def render_defs)
  show ?thesis
    using n ob dict_key_failure [OF n ob keys pre [of False] has fail nb]
      dict_key_failure [OF n ob keys pre [of True] has fail nb] r
    by simp
qed

subsection \<open>Schemas that only add to the store\<close>

lemma extends_refl: "extends h h"
  by (simp add: extends_def)

lemma extends_length: "extends h h' \<Longrightarrow> length h \<le> length h'"
proof -
  assume "extends h h'"
  then have "length (take (length h) h') = length h" by (simp add: extends_def)
  then show ?thesis by simp
qed

lemma extends_nth: "extends h h' \<Longrightarrow> a < length h \<Longrightarrow> h' ! a = h ! a"
  unfolding extends_def by (metis nth_take)

lemma extends_trans: "extends h h' \<Longrightarrow> extends h' h'' \<Longrightarrow> extends h h''"
proof -
  assume a: "extends h h'" and b: "extends h' h''"
  have "length h \<le> length h'" using a by (rule extends_length)
  then have "take (length h) h'' = take (length h) (take (length h') h'')"
    by (simp add: min_def)
  also have "\<dots> = take (length h) h'" using b by (simp add: extends_def)
  also have "\<dots> = h" using a by (simp add: extends_def)
  finally show ?thesis by (simp add: extends_def)
qed

lemma extends_append: "extends h (h @ xs)"
  by (simp add: extends_def)

lemma deref_extends: "extends h h' \<Longrightarrow> deref h v = Some ob \<Longrightarrow> deref h' v = Some ob"
  using extends_length [of h h'] extends_nth [of h h']
  by (cases v) (auto simp: deref_def split: if_splits)

lemma deref_alloc: "deref (h @ [ob]) (Ref (length h)) = Some ob"
  by (simp add: deref_def)

lemma conformant_nullable:
  "isNullable v \<Longrightarrow>
   conformant S strict h v = (\<not> required (meta_of S) \<and> isNullable (default_value (meta_of S)))"
  by (cases S) (simp_all add: conf_with_def)

lemma instanceOf_extends: "extends h h' \<Longrightarrow> instanceOf h v c \<Longrightarrow> instanceOf h' v c"
proof -
  assume e: "extends h h'" and i: "instanceOf h v c"
  then obtain ob where d: "deref h v = Some ob"
    by (cases "deref h v") (auto simp: instanceOf_def)
  from deref_extends [OF e d] d i show ?thesis by (simp add: instanceOf_def)
qed

lemma array_conf_iff:
  "array_conf c strict h v \<longleftrightarrow>
     (\<exists>xs. deref h v = Some (Arr xs) \<and>
           list_all (\<lambda>x. case x of None \<Rightarrow> True | Some e \<Rightarrow> c False h e) xs)"
proof (cases "deref h v")
  case None
  then show ?thesis by (simp add: array_conf_def)
next
  case (Some ob)
  then show ?thesis by (cases ob) (simp_all add: array_conf_def)
qed

lemma tuple_conf_iff:
  "tuple_conf cs strict h v \<longleftrightarrow>
     (\<exists>xs. deref h v = Some (Arr xs) \<and> length cs \<le> length xs \<and>
           (strict \<longrightarrow> length xs = length cs) \<and>
           list_all (\<lambda>x. x \<noteq> None) xs \<and>
           (\<forall>i < length cs. (cs ! i) False h (slot_value (xs ! i))))"
proof (cases "deref h v")
  case None
  then show ?thesis by (simp add: tuple_conf_def)
next
  case (Some ob)
  then show ?thesis by (cases ob) (simp_all add: tuple_conf_def)
qed

lemma object_conf_iff:
  "object_conf cd strict h v \<longleftrightarrow>
     (\<exists>ps. deref h v = Some (Obj ps) \<and>
           (strict \<longrightarrow> fst ` set ps \<subseteq> fst ` set cd) \<and>
           (\<forall>k \<in> fst ` set ps. inherited k \<longrightarrow> k \<in> fst ` set cd) \<and>
           list_all (\<lambda>p. snd p False h (lookup ps (fst p)) \<and>
                          (inherited (fst p) \<longrightarrow> has_key ps (fst p))) cd)"
proof (cases "deref h v")
  case None
  then show ?thesis by (simp add: object_conf_def)
next
  case (Some ob)
  then show ?thesis by (cases ob) (simp_all add: object_conf_def)
qed

lemma keys_image_map_prod [simp]: "fst ` map_prod id f ` A = fst ` A"
  by (simp add: image_image)

lemma keys_map_prod [simp]: "fst ` set (map (map_prod id f) xs) = fst ` set xs"
  by simp

lemma conformant_extends:
  "conformant S strict h v \<Longrightarrow> extends h h' \<Longrightarrow> conformant S strict h' v"
proof (induction S arbitrary: strict v)
  case (SIs c m)
  then show ?case by (auto simp: conf_with_def instanceOf_extends split: if_splits)
next
  case (SArray inner m)
  show ?case
  proof (cases "isNullable v")
    case True
    with SArray.prems show ?thesis by (simp add: conf_with_def)
  next
    case False
    with SArray.prems(1) obtain xs where
      d: "deref h v = Some (Arr xs)"
      and all: "list_all (\<lambda>x. case x of None \<Rightarrow> True | Some e \<Rightarrow> conformant inner False h e) xs"
      by (auto simp: conf_with_def array_conf_iff)
    have "list_all (\<lambda>x. case x of None \<Rightarrow> True | Some e \<Rightarrow> conformant inner False h' e) xs"
      using all SArray.IH [OF _ SArray.prems(2)]
      by (auto simp: list_all_iff split: option.splits)
    with False deref_extends [OF SArray.prems(2) d] show ?thesis
      by (auto simp: conf_with_def array_conf_iff)
  qed
next
  case (STuple list m)
  show ?case
  proof (cases "isNullable v")
    case True
    with STuple.prems show ?thesis by (simp add: conf_with_def)
  next
    case False
    with STuple.prems(1) obtain xs where
      d: "deref h v = Some (Arr xs)"
      and t: "length list \<le> length xs" "strict \<longrightarrow> length xs = length list"
        "list_all (\<lambda>x. x \<noteq> None) xs"
        "\<forall>i < length list. conformant (list ! i) False h (slot_value (xs ! i))"
      by (auto simp: conf_with_def tuple_conf_iff)
    have "\<forall>i < length list. conformant (list ! i) False h' (slot_value (xs ! i))"
      using t(4) STuple.IH [OF _ _ STuple.prems(2)] by (auto simp: nth_mem)
    with False t(1-3) deref_extends [OF STuple.prems(2) d] show ?thesis
      by (auto simp: conf_with_def tuple_conf_iff)
  qed
next
  case (SObject dict m)
  show ?case
  proof (cases "isNullable v")
    case True
    with SObject.prems show ?thesis by (simp add: conf_with_def)
  next
    case False
    with SObject.prems(1) obtain ps where
      d: "deref h v = Some (Obj ps)"
      and t: "strict \<longrightarrow> fst ` set ps \<subseteq> fst ` set dict"
        "\<forall>k \<in> fst ` set ps. inherited k \<longrightarrow> k \<in> fst ` set dict"
        "list_all (\<lambda>p. conformant (snd p) False h (lookup ps (fst p)) \<and>
                        (inherited (fst p) \<longrightarrow> has_key ps (fst p))) dict"
      by (auto simp: conf_with_def object_conf_iff list_all_iff)
    have "list_all (\<lambda>p. conformant (snd p) False h' (lookup ps (fst p)) \<and>
                         (inherited (fst p) \<longrightarrow> has_key ps (fst p))) dict"
      unfolding list_all_iff
    proof
      fix p assume p: "p \<in> set dict"
      with t(3) have "conformant (snd p) False h (lookup ps (fst p))"
        and i: "inherited (fst p) \<longrightarrow> has_key ps (fst p)" by (simp_all add: list_all_iff)
      with SObject.IH [of p "snd p", OF p _ _ SObject.prems(2)] i
      show "conformant (snd p) False h' (lookup ps (fst p)) \<and>
            (inherited (fst p) \<longrightarrow> has_key ps (fst p))"
        by (cases p) auto
    qed
    with False t(1,2) deref_extends [OF SObject.prems(2) d] show ?thesis
      by (auto simp: conf_with_def object_conf_iff list_all_iff)
  qed
qed (auto simp: conf_with_def split: if_splits)

lemma array_same_iff:
  "array_same s h v' v \<longleftrightarrow>
     (\<exists>xs' xs. deref h v' = Some (Arr xs') \<and> deref h v = Some (Arr xs) \<and>
               list_all2 (same_slot s h) xs' xs)"
  by (cases "deref h v'"; cases "deref h v")
     (simp_all add: array_same_def split: obj.splits)

lemma tuple_same_iff:
  "tuple_same ss h v' v \<longleftrightarrow>
     (\<exists>xs' xs. deref h v' = Some (Arr xs') \<and> deref h v = Some (Arr xs) \<and>
               length xs' = length xs \<and>
               (\<forall>i < length xs.
                  (i < length ss \<longrightarrow> same_slot (ss ! i) h (xs' ! i) (xs ! i)) \<and>
                  (length ss \<le> i \<longrightarrow> xs' ! i = xs ! i)))"
  by (cases "deref h v'"; cases "deref h v")
     (simp_all add: tuple_same_def split: obj.splits)

lemma object_same_iff:
  "object_same sd h v' v \<longleftrightarrow>
     (\<exists>ps' ps. deref h v' = Some (Obj ps') \<and> deref h v = Some (Obj ps) \<and>
               fst ` set ps' = fst ` set ps \<and>
               (\<forall>k \<in> fst ` set ps.
                  case map_of sd k of
                    Some s \<Rightarrow> s h (lookup ps' k) (lookup ps k)
                  | None \<Rightarrow> lookup ps' k = lookup ps k))"
  by (cases "deref h v'"; cases "deref h v")
     (simp_all add: object_same_def split: obj.splits)

lemma same_slot_mono:
  "same_slot s h x' x \<Longrightarrow> (\<And>e' e. s h e' e \<Longrightarrow> t h' e' e) \<Longrightarrow> same_slot t h' x' x"
  by (auto simp: same_slot_def split: option.splits)

lemma map_of_map_prod:
  "map_of (map (map_prod id f) dict) k = map_option f (map_of dict k)"
  by (induction dict) auto

lemma same_value_extends:
  "same_value S h v' v \<Longrightarrow> extends h h' \<Longrightarrow> same_value S h' v' v"
proof (induction S arbitrary: v' v)
  case (SArray inner m)
  show ?case
  proof (cases "isNullable v")
    case True
    with SArray.prems show ?thesis by (simp add: same_with_def)
  next
    case False
    with SArray.prems(1) obtain xs' xs where
      d: "deref h v' = Some (Arr xs')" "deref h v = Some (Arr xs)"
      and all: "list_all2 (same_slot (same_value inner) h) xs' xs"
      by (auto simp: same_with_def array_same_iff)
    have "list_all2 (same_slot (same_value inner) h') xs' xs"
      using all SArray.IH [OF _ SArray.prems(2)]
      by (auto elim!: list_all2_mono same_slot_mono)
    with False deref_extends [OF SArray.prems(2) d(1)] deref_extends [OF SArray.prems(2) d(2)]
    show ?thesis by (auto simp: same_with_def array_same_iff)
  qed
next
  case (STuple list m)
  show ?case
  proof (cases "isNullable v")
    case True
    with STuple.prems show ?thesis by (simp add: same_with_def)
  next
    case False
    with STuple.prems(1) obtain xs' xs where
      d: "deref h v' = Some (Arr xs')" "deref h v = Some (Arr xs)"
      and len: "length xs' = length xs"
      and all: "\<forall>i < length xs.
                  (i < length list \<longrightarrow>
                     same_slot (map same_value list ! i) h (xs' ! i) (xs ! i)) \<and>
                  (length list \<le> i \<longrightarrow> xs' ! i = xs ! i)"
      by (auto simp: same_with_def tuple_same_iff)
    have "\<forall>i < length xs.
            (i < length list \<longrightarrow> same_slot (map same_value list ! i) h' (xs' ! i) (xs ! i)) \<and>
            (length list \<le> i \<longrightarrow> xs' ! i = xs ! i)"
    proof (intro allI impI conjI)
      fix i assume i: "i < length xs" and l: "i < length list"
      with all have "same_slot (same_value (list ! i)) h (xs' ! i) (xs ! i)" by simp
      then have "same_slot (same_value (list ! i)) h' (xs' ! i) (xs ! i)"
        using STuple.IH [OF nth_mem [OF l] _ STuple.prems(2)]
        by (rule same_slot_mono)
      with l show "same_slot (map same_value list ! i) h' (xs' ! i) (xs ! i)" by simp
    next
      fix i assume "i < length xs" "length list \<le> i"
      with all show "xs' ! i = xs ! i" by simp
    qed
    with False len deref_extends [OF STuple.prems(2) d(1)] deref_extends [OF STuple.prems(2) d(2)]
    show ?thesis by (auto simp: same_with_def tuple_same_iff)
  qed
next
  case (SObject dict m)
  show ?case
  proof (cases "isNullable v")
    case True
    with SObject.prems show ?thesis by (simp add: same_with_def)
  next
    case False
    with SObject.prems(1) obtain ps' ps where
      d: "deref h v' = Some (Obj ps')" "deref h v = Some (Obj ps)"
      and keys: "fst ` set ps' = fst ` set ps"
      and all: "\<forall>k \<in> fst ` set ps.
                  case map_of (map (map_prod id same_value) dict) k of
                    Some s \<Rightarrow> s h (lookup ps' k) (lookup ps k)
                  | None \<Rightarrow> lookup ps' k = lookup ps k"
      by (auto simp: same_with_def object_same_iff)
    have "\<forall>k \<in> fst ` set ps.
            case map_of (map (map_prod id same_value) dict) k of
              Some s \<Rightarrow> s h' (lookup ps' k) (lookup ps k)
            | None \<Rightarrow> lookup ps' k = lookup ps k"
    proof
      fix k assume k: "k \<in> fst ` set ps"
      show "case map_of (map (map_prod id same_value) dict) k of
              Some s \<Rightarrow> s h' (lookup ps' k) (lookup ps k)
            | None \<Rightarrow> lookup ps' k = lookup ps k"
      proof (cases "map_of dict k")
        case None
        with all k show ?thesis by (auto simp: map_of_map_prod)
      next
        case (Some s)
        then have mem: "(k, s) \<in> set dict" by (rule map_of_SomeD)
        from all k Some have "same_value s h (lookup ps' k) (lookup ps k)"
          by (auto simp: map_of_map_prod)
        from SObject.IH [OF mem _ this SObject.prems(2)] Some show ?thesis
          by (simp add: map_of_map_prod)
      qed
    qed
    with False keys deref_extends [OF SObject.prems(2) d(1)]
      deref_extends [OF SObject.prems(2) d(2)]
    show ?thesis by (auto simp: same_with_def object_same_iff)
  qed
qed (auto simp: identical_def)

subsection \<open>What a schema resolves is conformant\<close>

lemma soundD:
  "sound S \<Longrightarrow> resolve S st x hint = (Inr (v, a), st') \<Longrightarrow>
   conformant S hint (heap st') v \<and> extends (heap st) (heap st') \<and> a = Undefined"
  unfolding sound_def by blast

lemma expected_but_got_Inl: "expected_but_got st what data \<noteq> (Inr r, st')"
  by (simp add: expected_but_got_def throw_schema_def split: json.splits)

lemma has_own_Obj: "deref h d = Some (Obj ps) \<Longrightarrow> has_own h d k = has_key ps k"
  by (cases d) (simp_all add: has_own_def deref_def)

lemma has_in_Obj: "deref h d = Some (Obj ps) \<Longrightarrow> has_in h d k = key_in ps k"
  by (simp add: has_in_def)

lemma own_keys_Obj: "deref h d = Some (Obj ps) \<Longrightarrow> own_keys h d = map fst ps"
  by (cases d) (simp_all add: own_keys_def deref_def)

lemma get_prop_Obj: "deref h d = Some (Obj ps) \<Longrightarrow> get_prop h d k = read ps k"
  by (cases d) (simp_all add: get_prop_def deref_def)

lemma resolve_with_sound:
  assumes cb: "\<And>st x hint v a st'. \<not> isNullable x \<Longrightarrow> cb st x hint = (Inr (v, a), st') \<Longrightarrow>
                 \<not> isNullable v \<and> k hint (heap st') v \<and> extends (heap st) (heap st') \<and> a = Undefined"
    and res: "resolve_with S (Some cb) st x hint = (Inr (v, a), st')"
  shows "conf_with (meta_of S) k hint (heap st') v \<and> extends (heap st) (heap st') \<and> a = Undefined"
proof -
  let ?st1 = "st\<lparr>current := Some S\<rparr>"
  obtain r st2 where tr: "resolve_try S (Some cb) ?st1 x hint = (r, st2)"
    by (cases "resolve_try S (Some cb) ?st1 x hint")
  from res tr have r: "r = Inr (v, a)" and st': "st' = st2\<lparr>current := current st\<rparr>"
    by (cases r; auto simp: resolve_with_def Let_def)+
  show ?thesis
  proof (cases "isNullable x")
    case True
    note nx = this
    show ?thesis
    proof (cases "required (meta_of S)")
      case True
      with nx tr r show ?thesis by (simp add: resolve_try_def throw_schema_def)
    next
      case False
      note nr = this
      show ?thesis
      proof (cases "isNullable (default_value (meta_of S))")
        case True
        with nx nr tr r st' show ?thesis
          by (auto simp: resolve_try_def conf_with_def extends_refl)
      next
        case False
        with nx nr tr r have c: "cb ?st1 (default_value (meta_of S)) hint = (Inr (v, a), st2)"
          by (simp add: resolve_try_def)
        from cb [OF False c] st' show ?thesis by (simp add: conf_with_def)
      qed
    qed
  next
    case False
    with tr r have c: "cb ?st1 x hint = (Inr (v, a), st2)"
      by (simp add: resolve_try_def)
    from cb [OF False c] st' show ?thesis by (simp add: conf_with_def)
  qed
qed

lemma property_sound:
  assumes "sound s" and "property st data key (resolve s) = (Inr v, st')"
  shows "conformant s False (heap st') v \<and> extends (heap st) (heap st')"
proof -
  from assms(2) obtain x where g: "prop_get (heap st) data key = Some x"
    by (cases "prop_get (heap st) data key") (auto simp: property_def beyond_def)
  obtain r st1 where c: "resolve s st x False = (r, st1)"
    by (cases "resolve s st x False")
  from assms(2) g c obtain a where r: "r = Inr (v, a)"
    by (cases r) (auto simp: property_def beyond_def split: prod.splits if_splits option.splits)
  from soundD [OF assms(1) c [unfolded r]] have
    s: "conformant s False (heap st1) v" "extends (heap st) (heap st1)" "a = Undefined"
    by simp_all
  from assms(2) g c r s(3) have "st' = st1" by (simp add: property_def isNullable_def)
  with s show ?thesis by simp
qed

lemma array_loop_sound:
  assumes "sound s"
  shows "array_loop (resolve s) st data idxs acc = (Inr res, st') \<Longrightarrow>
         list_all (\<lambda>x. case x of None \<Rightarrow> True | Some e \<Rightarrow> conformant s False (heap st) e) acc \<Longrightarrow>
         extends (heap st) (heap st') \<and>
         list_all (\<lambda>x. case x of None \<Rightarrow> True | Some e \<Rightarrow> conformant s False (heap st') e) res"
proof (induction idxs arbitrary: st acc)
  case Nil
  then show ?case by (auto simp: extends_refl)
next
  case (Cons index rest)
  show ?case
  proof (cases "prop_has (heap st) data (Index index)")
    case False
    with Cons.prems(1) have "array_loop (resolve s) st data rest (acc @ [None]) = (Inr res, st')"
      by simp
    from Cons.IH [OF this] Cons.prems(2) show ?thesis by simp
  next
    case True
    obtain r st1 where p: "property st data (Index index) (resolve s) = (r, st1)"
      by (cases "property st data (Index index) (resolve s)")
    from Cons.prems(1) True p obtain v where r: "r = Inr v"
      by (cases r) simp_all
    from Cons.prems(1) True p r have
      rest: "array_loop (resolve s) st1 data rest (acc @ [Some v]) = (Inr res, st')"
      by simp
    from property_sound [OF assms p [unfolded r]] have
      c: "conformant s False (heap st1) v" and e: "extends (heap st) (heap st1)" by simp_all
    have "list_all (\<lambda>x. case x of None \<Rightarrow> True | Some e \<Rightarrow> conformant s False (heap st1) e)
            (acc @ [Some v])"
      using Cons.prems(2) c conformant_extends [OF _ e]
      by (auto simp: list_all_iff split: option.splits)
    from Cons.IH [OF rest this] e show ?thesis
      by (auto intro: extends_trans)
  qed
qed

lemma array_resolver_sound:
  assumes "sound s" and "array_resolver (resolve s) st x hint = (Inr (v, a), st')"
  shows "\<not> isNullable v \<and> array_conf (conformant s) hint (heap st') v \<and>
         extends (heap st) (heap st') \<and> a = Undefined"
proof -
  obtain r st1 where
    l: "array_loop (resolve s) st x [0 ..< array_length (heap st) x] [] = (r, st1)"
    by (cases "array_loop (resolve s) st x [0 ..< array_length (heap st) x] []")
  from assms(2) have ia: "isArray (heap st) x"
    by (auto simp: array_resolver_def expected_but_got_Inl split: if_splits)
  from assms(2) ia l obtain res where r: "r = Inr res"
    by (cases r) (simp_all add: array_resolver_def)
  from assms(2) ia l r have v: "v = Ref (length (heap st1))" and a: "a = Undefined"
    and h: "heap st' = heap st1 @ [Arr res]"
    by (auto simp: array_resolver_def new_array_def alloc_def)
  from array_loop_sound [OF assms(1) l [unfolded r]] have
    e: "extends (heap st) (heap st1)"
    and c: "list_all (\<lambda>x. case x of None \<Rightarrow> True | Some e \<Rightarrow> conformant s False (heap st1) e) res"
    by simp_all
  have e1: "extends (heap st1) (heap st')" unfolding h by (rule extends_append)
  have "list_all (\<lambda>x. case x of None \<Rightarrow> True | Some e \<Rightarrow> conformant s False (heap st') e) res"
    using c conformant_extends [OF _ e1] by (auto simp: list_all_iff split: option.splits)
  then have "array_conf (conformant s) hint (heap st') v"
    unfolding array_conf_iff v h using h by (auto simp: deref_alloc)
  with v a e e1 show ?thesis by (auto simp: isNullable_def intro: extends_trans)
qed

lemma tuple_loop_sound:
  assumes "\<And>s. s \<in> set list \<Longrightarrow> sound s"
  shows "tuple_loop st data (map resolve list) index acc = (Inr res, st') \<Longrightarrow>
         extends (heap st) (heap st') \<and> length res = length acc + length list \<and>
         take (length acc) res = acc \<and>
         (\<forall>j < length list. conformant (list ! j) False (heap st') (res ! (length acc + j)))"
  using assms
proof (induction list arbitrary: st index acc)
  case Nil
  then show ?case by (auto simp: extends_refl)
next
  case (Cons s rest)
  obtain r st1 where p: "property st data (Index index) (resolve s) = (r, st1)"
    by (cases "property st data (Index index) (resolve s)")
  from Cons.prems(1) p obtain v where r: "r = Inr v"
    by (cases r) simp_all
  from Cons.prems(1) p r have
    rest: "tuple_loop st1 data (map resolve rest) (Suc index) (acc @ [v]) = (Inr res, st')"
    by simp
  have ss: "sound s" using Cons.prems(2) by simp
  from property_sound [OF ss p [unfolded r]] have
    c: "conformant s False (heap st1) v" and e: "extends (heap st) (heap st1)" by simp_all
  from Cons.IH [OF rest] Cons.prems(2) have
    ih: "extends (heap st1) (heap st')" "length res = length (acc @ [v]) + length rest"
      "take (length (acc @ [v])) res = acc @ [v]"
      "\<forall>j < length rest. conformant (rest ! j) False (heap st') (res ! (length (acc @ [v]) + j))"
    by simp_all
  have t: "take (length acc) res = acc"
  proof -
    have "take (length acc) res = take (length acc) (take (length (acc @ [v])) res)"
      by (simp add: min_def)
    also have "\<dots> = acc" unfolding ih(3) by simp
    finally show ?thesis .
  qed
  have v: "res ! length acc = v"
  proof -
    have "res ! length acc = take (length (acc @ [v])) res ! length acc" by simp
    also have "\<dots> = v" unfolding ih(3) by simp
    finally show ?thesis .
  qed
  have "conformant ((s # rest) ! j) False (heap st') (res ! (length acc + j))"
    if "j < length (s # rest)" for j
  proof (cases j)
    case 0
    with v conformant_extends [OF c ih(1)] show ?thesis by simp
  next
    case (Suc j')
    with that ih(4) show ?thesis by simp
  qed
  with e ih(1,2) t show ?case by (auto intro: extends_trans)
qed

lemma tuple_resolver_sound:
  assumes "\<And>s. s \<in> set list \<Longrightarrow> sound s"
    and "tuple_resolver (map resolve list) st x strict = (Inr (v, a), st')"
  shows "\<not> isNullable v \<and> tuple_conf (map conformant list) strict (heap st') v \<and>
         extends (heap st) (heap st') \<and> a = Undefined"
proof -
  obtain r st1 where l: "tuple_loop st x (map resolve list) 0 [] = (r, st1)"
    by (cases "tuple_loop st x (map resolve list) 0 []")
  from assms(2) have ia: "isArray (heap st) x"
    by (auto simp: tuple_resolver_def expected_but_got_Inl split: if_splits)
  from assms(2) ia l obtain res where r: "r = Inr res"
    by (cases r) (simp_all add: tuple_resolver_def)
  let ?full = "if strict then res else res @ slice_spread (heap st1) x (length list)"
  from assms(2) ia l r have v: "v = Ref (length (heap st1))" and a: "a = Undefined"
    and h: "heap st' = heap st1 @ [Arr (map Some ?full)]"
    by (auto simp: tuple_resolver_def new_array_def alloc_def)
  from tuple_loop_sound [OF assms(1) l [unfolded r]] have
    e: "extends (heap st) (heap st1)" and len: "length res = length list"
    and c: "\<forall>j < length list. conformant (list ! j) False (heap st1) (res ! j)"
    by simp_all
  have e1: "extends (heap st1) (heap st')" unfolding h by (rule extends_append)
  have d: "deref (heap st') v = Some (Arr (map Some ?full))"
    unfolding v h by (rule deref_alloc)
  have c': "\<forall>i < length (map conformant list).
      (map conformant list ! i) False (heap st') (slot_value (map Some ?full ! i))"
    using c len conformant_extends [OF _ e1]
    by (auto simp: slot_value_def nth_append)
  have "tuple_conf (map conformant list) strict (heap st') v"
    unfolding tuple_conf_iff using d c' len by (auto simp: list_all_iff)
  with v a e e1 show ?thesis by (auto simp: isNullable_def intro: extends_trans)
qed

lemma object_loop_sound:
  assumes "\<And>k s. (k, s) \<in> set dict \<Longrightarrow> sound s"
  shows "distinct (map fst dict) \<Longrightarrow> ''__proto__'' \<notin> fst ` set dict \<Longrightarrow>
         deref (heap st) data = Some (Obj ps0) \<Longrightarrow>
         fst ` set acc \<inter> fst ` set dict = {} \<Longrightarrow>
         object_loop st data (map (map_prod id resolve) dict) acc = (Inr res, st') \<Longrightarrow>
         extends (heap st) (heap st') \<and>
         (\<forall>k. k \<notin> fst ` set dict \<longrightarrow> map_of res k = map_of acc k) \<and>
         (\<forall>p \<in> set dict. conformant (snd p) False (heap st') (lookup res (fst p)) \<and>
                          (has_key res (fst p) \<or> \<not> key_in ps0 (fst p)))"
  using assms
proof (induction dict arbitrary: st acc)
  case Nil
  then show ?case by (auto simp: extends_refl)
next
  case (Cons entry rest)
  obtain k s where entry: "entry = (k, s)" by (cases entry)
  have ss: "sound s" using Cons.prems(6) [of k s] entry by simp
  have kp: "k \<noteq> ''__proto__''" using Cons.prems(2) entry by auto
  obtain r st1 where p: "property st data (Name k) (resolve s) = (r, st1)"
    by (cases "property st data (Name k) (resolve s)")
  from Cons.prems(5) p entry obtain v where r: "r = Inr v"
    by (cases r) simp_all
  from property_sound [OF ss p [unfolded r]] have
    c: "conformant s False (heap st1) v" and e: "extends (heap st) (heap st1)" by simp_all
  have d1: "deref (heap st1) data = Some (Obj ps0)"
    using deref_extends [OF e Cons.prems(3)] .
  have hin: "has_in (heap st1) data k = key_in ps0 k" using has_in_Obj [OF d1] .
  obtain acc1 where
    acc1: "if \<not> isNullable v \<or> key_in ps0 k then put acc k v = Some acc1 else acc1 = acc"
    using put_ordinary [OF kp, of acc v] by (cases "\<not> isNullable v \<or> key_in ps0 k") auto
  from Cons.prems(5) p r entry hin acc1 have
    rest: "object_loop st1 data (map (map_prod id resolve) rest) acc1 = (Inr res, st')"
    by (cases "\<not> isNullable v \<or> key_in ps0 k") (simp_all add: beyond_def id_def)
  have m1: "map_of acc1 k' =
      (if k' = k \<and> (\<not> isNullable v \<or> key_in ps0 k) then Some v else map_of acc k')" for k'
    using acc1 map_of_put_at [of acc k v acc1 k'] kp by (auto split: if_splits)
  have dist: "distinct (map fst rest)" and knot: "k \<notin> fst ` set rest"
    using Cons.prems(1) entry by auto
  have pr: "''__proto__'' \<notin> fst ` set rest" using Cons.prems(2) by auto
  have kacc: "map_of acc k = None"
    using Cons.prems(4) entry by (auto simp: map_of_eq_None_iff)
  have disj: "fst ` set acc1 \<inter> fst ` set rest = {}"
  proof -
    have "k' \<notin> fst ` set rest" if "k' \<in> fst ` set acc1" for k'
    proof -
      from that have "map_of acc1 k' \<noteq> None" by (simp add: map_of_eq_None_iff)
      with m1 [of k'] have "k' = k \<or> map_of acc k' \<noteq> None" by (auto split: if_splits)
      then show ?thesis
        using knot Cons.prems(4) by (auto simp: map_of_eq_None_iff)
    qed
    then show ?thesis by blast
  qed
  have sr: "\<And>k s. (k, s) \<in> set rest \<Longrightarrow> sound s" using Cons.prems(6) by auto
  from Cons.IH [OF dist pr d1 disj rest sr] have
    ih: "extends (heap st1) (heap st')"
      "\<forall>k'. k' \<notin> fst ` set rest \<longrightarrow> map_of res k' = map_of acc1 k'"
      "\<forall>p \<in> set rest. conformant (snd p) False (heap st') (lookup res (fst p)) \<and>
                        (has_key res (fst p) \<or> \<not> key_in ps0 (fst p))"
    by simp_all
  from ih(2) knot have mk: "map_of res k = map_of acc1 k" by simp
  have here: "conformant s False (heap st') (lookup res k) \<and> (has_key res k \<or> \<not> key_in ps0 k)"
  proof (cases "\<not> isNullable v \<or> key_in ps0 k")
    case True
    with mk m1 [of k] have "map_of res k = Some v" by simp
    then have "lookup res k = v" "has_key res k"
      by (simp_all add: lookup_def has_key_map_of)
    with conformant_extends [OF c ih(1)] show ?thesis by simp
  next
    case False
    then have nv: "isNullable v" and np: "\<not> key_in ps0 k" by simp_all
    from False mk m1 [of k] kacc have "map_of res k = None" by simp
    then have l: "lookup res k = Undefined" by (simp add: lookup_def)
    from c nv have "conformant s False (heap st') Undefined"
      by (simp add: conformant_nullable isNullable_def)
    with np l show ?thesis by simp
  qed
  have outside: "\<forall>k'. k' \<notin> fst ` set (entry # rest) \<longrightarrow> map_of res k' = map_of acc k'"
    using ih(2) entry m1 by auto
  from e ih(1) have "extends (heap st) (heap st')" by (rule extends_trans)
  with outside here ih(3) entry show ?case by simp
qed

lemma object_resolver_sound:
  assumes "\<And>k s. (k, s) \<in> set dict \<Longrightarrow> sound s" and "distinct (map fst dict)"
    and "''__proto__'' \<notin> fst ` set dict"
    and "object_resolver (map (map_prod id resolve) dict) st x strict = (Inr (v, a), st')"
  shows "\<not> isNullable v \<and> object_conf (map (map_prod id conformant) dict) strict (heap st') v \<and>
         extends (heap st) (heap st') \<and> a = Undefined"
proof -
  obtain r st1 where l: "object_loop st x (map (map_prod id resolve) dict) [] = (r, st1)"
    by (cases "object_loop st x (map (map_prod id resolve) dict) []")
  from assms(4) have io: "isObject (heap st) x"
    by (auto simp: object_resolver_def expected_but_got_Inl split: if_splits)
  then obtain ps0 where d0: "deref (heap st) x = Some (Obj ps0)"
    by (cases "deref (heap st) x") (auto simp: isObject_def split: obj.splits)
  from assms(4) io l obtain res where r: "r = Inr res"
    by (cases r) (simp_all add: object_resolver_def)
  from assms(4) io l r obtain ps where
    ps: "(if strict then Some res else merge (heap st1) res x) = Some ps"
    and v: "v = Ref (length (heap st1))" and a: "a = Undefined"
    and h: "heap st' = heap st1 @ [Obj ps]"
    by (auto simp: object_resolver_def new_object_def alloc_def beyond_def
        split: option.splits if_splits)
  from object_loop_sound [OF assms(1) assms(2) assms(3) d0 _ l [unfolded r]] have
    e: "extends (heap st) (heap st1)"
    and out: "\<forall>k. k \<notin> fst ` set dict \<longrightarrow> map_of res k = None"
    and c: "\<forall>p \<in> set dict. conformant (snd p) False (heap st1) (lookup res (fst p)) \<and>
                           (has_key res (fst p) \<or> \<not> key_in ps0 (fst p))"
    by simp_all
  have e1: "extends (heap st1) (heap st')" unfolding h by (rule extends_append)
  have d1: "deref (heap st1) x = Some (Obj ps0)" using deref_extends [OF e d0] .
  have d: "deref (heap st') v = Some (Obj ps)"
    unfolding v h by (rule deref_alloc)
  have mps: "map_of ps k =
      (case map_of res k of
         Some w \<Rightarrow> Some w
       | None \<Rightarrow> if \<not> strict \<and> k \<in> fst ` set ps0 \<and> \<not> inherited k then read ps0 k else None)"
    for k
  proof (cases strict)
    case True
    with ps show ?thesis by (simp split: option.splits)
  next
    case False
    with ps have "merge (heap st1) res x = Some ps" by simp
    from map_of_merge [OF this, of k, unfolded own_keys_Obj [OF d1] get_prop_Obj [OF d1]] False
    show ?thesis by (auto split: option.splits)
  qed
  have keys_res: "fst ` set res \<subseteq> fst ` set dict"
  proof
    fix k assume "k \<in> fst ` set res"
    then have n: "map_of res k \<noteq> None" by (simp add: map_of_eq_None_iff)
    show "k \<in> fst ` set dict"
    proof (rule ccontr)
      assume "k \<notin> fst ` set dict"
      then have "map_of res k = None" by (rule out [rule_format])
      with n show False by simp
    qed
  qed
  have strict_keys: "strict \<longrightarrow> fst ` set ps \<subseteq> fst ` set dict"
  proof
    assume s: strict
    show "fst ` set ps \<subseteq> fst ` set dict"
    proof
      fix k assume "k \<in> fst ` set ps"
      then have "map_of ps k \<noteq> None" by (simp add: map_of_eq_None_iff)
      with mps [of k] s have "map_of res k \<noteq> None" by (auto split: option.splits)
      then have "k \<in> fst ` set res" by (simp add: map_of_eq_None_iff)
      then show "k \<in> fst ` set dict" by (rule subsetD [OF keys_res])
    qed
  qed
  have inh_keys: "\<forall>k \<in> fst ` set ps. inherited k \<longrightarrow> k \<in> fst ` set dict"
  proof (intro ballI impI)
    fix k assume "k \<in> fst ` set ps" and i: "inherited k"
    then have "map_of ps k \<noteq> None" by (simp add: map_of_eq_None_iff)
    with mps [of k] i have "map_of res k \<noteq> None" by (auto split: option.splits)
    then have "k \<in> fst ` set res" by (simp add: map_of_eq_None_iff)
    then show "k \<in> fst ` set dict" by (rule subsetD [OF keys_res])
  qed
  have look: "lookup ps (fst p) = lookup res (fst p) \<and>
              (inherited (fst p) \<longrightarrow> has_key ps (fst p))" if "p \<in> set dict" for p
  proof -
    from c that have hk: "has_key res (fst p) \<or> \<not> key_in ps0 (fst p)" by blast
    show ?thesis
    proof (cases "map_of res (fst p)")
      case (Some w)
      with mps [of "fst p"] show ?thesis by (simp add: lookup_def has_key_map_of)
    next
      case None
      with hk have nk: "\<not> key_in ps0 (fst p)" by (simp add: has_key_map_of)
      then have "fst p \<notin> fst ` set ps0" "\<not> inherited (fst p)"
        by (simp_all add: key_in_def has_key_conv)
      with None mps [of "fst p"] show ?thesis by (simp add: lookup_def)
    qed
  qed
  have "list_all (\<lambda>p. snd p False (heap st') (lookup ps (fst p)) \<and>
                       (inherited (fst p) \<longrightarrow> has_key ps (fst p)))
          (map (map_prod id conformant) dict)"
    unfolding list_all_iff
  proof
    fix q assume "q \<in> set (map (map_prod id conformant) dict)"
    then obtain p where p: "p \<in> set dict" and q: "q = map_prod id conformant p" by auto
    from c p have "conformant (snd p) False (heap st1) (lookup res (fst p))" by blast
    from conformant_extends [OF this e1] look [OF p] q
    show "snd q False (heap st') (lookup ps (fst q)) \<and>
          (inherited (fst q) \<longrightarrow> has_key ps (fst q))" by (cases p) simp
  qed
  with d strict_keys inh_keys
  have "object_conf (map (map_prod id conformant) dict) strict (heap st') v"
    unfolding object_conf_iff by auto
  with v a e e1 show ?thesis by (auto simp: isNullable_def intro: extends_trans)
qed

lemma primitive_sound:
  assumes "\<And>st x hint v a st'. \<not> isNullable x \<Longrightarrow> cb st x hint = (Inr (v, a), st') \<Longrightarrow>
             \<not> isNullable v \<and> k hint (heap st') v \<and> extends (heap st) (heap st') \<and> a = Undefined"
    and "resolve S = resolve_with S (Some cb)" and "conformant S = conf_with (meta_of S) k"
  shows "sound S"
  unfolding sound_def using resolve_with_sound [of cb k S, OF assms(1)] assms(2,3)
  by auto

lemma plain_sound: "plain S \<Longrightarrow> sound S"
proof (induction S)
  case (SAny m)
  show ?case
    by (rule primitive_sound [where cb = any_resolver and k = "\<lambda>strict h v. True"])
       (auto simp: any_resolver_def extends_refl)
next
  case (SNever m)
  show ?case
    by (rule primitive_sound [where cb = never_resolver and k = "\<lambda>strict h v. False"])
       (auto simp: never_resolver_def expected_but_got_Inl)
next
  case (SConst c m)
  show ?case
    by (rule primitive_sound [where cb = "const_resolver c" and k = "\<lambda>strict h v. v = c"])
       (auto simp: const_resolver_def expected_but_got_Inl extends_refl
          split: if_splits option.splits)
next
  case (SString m)
  show ?case
    by (rule primitive_sound [where cb = string_resolver
          and k = "\<lambda>strict h v. case v of Str s \<Rightarrow> True | _ \<Rightarrow> False"])
       (auto simp: string_resolver_def expected_but_got_Inl extends_refl isNullable_def
          split: val.splits)
next
  case (SNumber m)
  show ?case
    by (rule primitive_sound [where cb = number_resolver
          and k = "\<lambda>strict h v. case v of Num n \<Rightarrow> True | _ \<Rightarrow> False"])
       (auto simp: number_resolver_def expected_but_got_Inl extends_refl isNullable_def
          split: val.splits)
next
  case (SBoolean m)
  show ?case
    by (rule primitive_sound [where cb = boolean_resolver
          and k = "\<lambda>strict h v. case v of Bool b \<Rightarrow> True | _ \<Rightarrow> False"])
       (auto simp: boolean_resolver_def expected_but_got_Inl extends_refl isNullable_def
          split: val.splits)
next
  case (SIs c m)
  show ?case
    by (rule primitive_sound [where cb = "is_resolver c" and k = "\<lambda>strict h v. instanceOf h v c"])
       (auto simp: is_resolver_def throw_schema_def extends_refl
          split: if_splits option.splits)
next
  case (SArray inner m)
  then have "sound inner" by simp
  from array_resolver_sound [OF this] show ?case
    by (intro primitive_sound [where cb = "array_resolver (resolve inner)"
          and k = "array_conf (conformant inner)"]) auto
next
  case (STuple list m)
  then have "\<And>s. s \<in> set list \<Longrightarrow> sound s" by (simp add: list_all_iff)
  from tuple_resolver_sound [OF this] show ?case
    by (intro primitive_sound [where cb = "tuple_resolver (map resolve list)"
          and k = "tuple_conf (map conformant list)"]) auto
next
  case (SObject dict m)
  then have s: "\<And>k s. (k, s) \<in> set dict \<Longrightarrow> sound s"
    and d: "distinct (map fst dict)" and p: "''__proto__'' \<notin> fst ` set dict"
    by (auto simp: list_all_iff)
  from object_resolver_sound [OF s d p] show ?case
    by (intro primitive_sound [where cb = "object_resolver (map (map_prod id resolve) dict)"
          and k = "object_conf (map (map_prod id conformant) dict)"]) auto
qed simp_all

subsection \<open>A conformant value resolves to an equal value\<close>

lemma settlesD:
  "settles S \<Longrightarrow> conformant S hint (heap st) v \<Longrightarrow>
   \<exists>v' st'. resolve S st v hint = (Inr (v', Undefined), st') \<and>
            same_value S (heap st') v' v \<and> extends (heap st) (heap st')"
  unfolding settles_def by blast

lemma same_value_nullable: "isNullable v \<Longrightarrow> same_value S h v' v \<Longrightarrow> v' = v"
  by (cases S) (simp_all add: identical_def same_with_def)

lemma same_slot_extends:
  "same_slot (same_value s) h x' x \<Longrightarrow> extends h h' \<Longrightarrow> same_slot (same_value s) h' x' x"
  by (erule same_slot_mono) (rule same_value_extends)

lemma resolve_with_identity:
  assumes cb: "\<And>st. \<not> isNullable v \<Longrightarrow> k hint (heap st) v \<Longrightarrow> cb st v hint = (Inr (v, Undefined), st)"
    and c: "conf_with (meta_of S) k hint (heap st) v"
  shows "resolve_with S (Some cb) st v hint = (Inr (v, Undefined), st)"
proof (cases "isNullable v")
  case True
  with c show ?thesis
    by (simp add: conf_with_def resolve_with_def resolve_try_def)
next
  case False
  with c have "k hint (heap (st\<lparr>current := Some S\<rparr>)) v" by (simp add: conf_with_def)
  from cb [OF False this] False show ?thesis
    by (simp add: resolve_with_def resolve_try_def)
qed

lemma resolve_with_settles:
  assumes cb: "\<And>st. \<not> isNullable v \<Longrightarrow> k hint (heap st) v \<Longrightarrow>
                 \<exists>v' st'. cb st v hint = (Inr (v', Undefined), st') \<and> sm (heap st') v' v \<and>
                          extends (heap st) (heap st')"
    and c: "conf_with (meta_of S) k hint (heap st) v"
  shows "\<exists>v' st'. resolve_with S (Some cb) st v hint = (Inr (v', Undefined), st') \<and>
                  same_with sm (heap st') v' v \<and> extends (heap st) (heap st')"
proof (cases "isNullable v")
  case True
  with c have "resolve_with S (Some cb) st v hint = (Inr (v, Undefined), st)"
    by (simp add: conf_with_def resolve_with_def resolve_try_def)
  with True show ?thesis by (simp add: same_with_def extends_refl)
next
  case False
  with c have "k hint (heap (st\<lparr>current := Some S\<rparr>)) v" by (simp add: conf_with_def)
  from cb [OF False this] obtain v' st2 where
    r: "cb (st\<lparr>current := Some S\<rparr>) v hint = (Inr (v', Undefined), st2)"
    and s: "sm (heap st2) v' v" and e: "extends (heap st) (heap st2)"
    by auto
  from r False have
    "resolve_with S (Some cb) st v hint = (Inr (v', Undefined), st2\<lparr>current := current st\<rparr>)"
    by (simp add: resolve_with_def resolve_try_def)
  with s e False show ?thesis by (simp add: same_with_def)
qed

lemma property_settles:
  assumes "settles s" and "prop_get (heap st) data key = Some e"
    and "conformant s False (heap st) e"
  shows "\<exists>e' st'. property st data key (resolve s) = (Inr e', st') \<and>
                  same_value s (heap st') e' e \<and> extends (heap st) (heap st')"
proof -
  from settlesD [OF assms(1) assms(3)] obtain e' st' where
    r: "resolve s st e False = (Inr (e', Undefined), st')"
    and s: "same_value s (heap st') e' e" and x: "extends (heap st) (heap st')"
    by auto
  from r assms(2) have "property st data key (resolve s) = (Inr e', st')"
    by (simp add: property_def isNullable_def)
  with s x show ?thesis by blast
qed

lemma prop_get_Arr:
  "deref h d = Some (Arr xs) \<Longrightarrow>
   prop_get h d (Index i) = Some (if i < length xs then slot_value (xs ! i) else Undefined)"
  by (simp add: prop_get_def)

lemma prop_has_Arr:
  "deref h d = Some (Arr xs) \<Longrightarrow> prop_has h d (Index i) = (i < length xs \<and> xs ! i \<noteq> None)"
  by (simp add: prop_has_def)

lemma array_loop_settles:
  assumes "settles s"
  shows "deref (heap st) data = Some (Arr xs) \<Longrightarrow>
         list_all (\<lambda>x. case x of None \<Rightarrow> True | Some e \<Rightarrow> conformant s False (heap st) e) xs \<Longrightarrow>
         n \<le> length xs \<Longrightarrow>
         list_all2 (same_slot (same_value s) (heap st)) acc (take n xs) \<Longrightarrow>
         \<exists>res st'. array_loop (resolve s) st data [n ..< length xs] acc = (Inr res, st') \<and>
                   extends (heap st) (heap st') \<and>
                   list_all2 (same_slot (same_value s) (heap st')) res xs"
proof (induction "length xs - n" arbitrary: n st acc)
  case 0
  then have "n = length xs" by simp
  with 0 show ?case by (auto simp: extends_refl)
next
  case (Suc m)
  then have n: "n < length xs" by simp
  then have upt: "[n ..< length xs] = n # [Suc n ..< length xs]" by (rule upt_conv_Cons)
  have tk: "take (Suc n) xs = take n xs @ [xs ! n]" using n by (rule take_Suc_conv_app_nth)
  have m: "m = length xs - Suc n" using Suc.hyps(2) by simp
  show ?case
  proof (cases "xs ! n")
    case None
    have a: "list_all2 (same_slot (same_value s) (heap st)) (acc @ [None]) (take (Suc n) xs)"
      unfolding tk using Suc.prems(4) None
      by (simp add: list_all2_appendI same_slot_def)
    from Suc.hyps(1) [OF m Suc.prems(1) Suc.prems(2) _ a] n obtain res st' where
      "array_loop (resolve s) st data [Suc n ..< length xs] (acc @ [None]) = (Inr res, st')"
      "extends (heap st) (heap st')" "list_all2 (same_slot (same_value s) (heap st')) res xs"
      by auto
    with None n show ?thesis
      by (simp add: upt prop_has_Arr [OF Suc.prems(1)])
  next
    case (Some e)
    with Suc.prems(2) n have c: "conformant s False (heap st) e"
      by (auto simp: list_all_iff dest!: bspec [OF _ nth_mem])
    have g: "prop_get (heap st) data (Index n) = Some e"
      using n Some by (simp add: prop_get_Arr [OF Suc.prems(1)] slot_value_def)
    from property_settles [OF assms g c] obtain e' st1 where
      p: "property st data (Index n) (resolve s) = (Inr e', st1)"
      and s: "same_value s (heap st1) e' e" and x: "extends (heap st) (heap st1)"
      by auto
    have d1: "deref (heap st1) data = Some (Arr xs)" using deref_extends [OF x Suc.prems(1)] .
    have c1: "list_all (\<lambda>x. case x of None \<Rightarrow> True | Some e \<Rightarrow> conformant s False (heap st1) e) xs"
      using Suc.prems(2) conformant_extends [OF _ x]
      by (auto simp: list_all_iff split: option.splits)
    have "list_all2 (same_slot (same_value s) (heap st1)) acc (take n xs)"
      using Suc.prems(4) same_slot_extends [OF _ x] by (auto elim!: list_all2_mono)
    then have a: "list_all2 (same_slot (same_value s) (heap st1)) (acc @ [Some e'])
        (take (Suc n) xs)"
      unfolding tk using s Some by (simp add: list_all2_appendI same_slot_def)
    from Suc.hyps(1) [OF m d1 c1 _ a] n obtain res st' where
      l: "array_loop (resolve s) st1 data [Suc n ..< length xs] (acc @ [Some e']) = (Inr res, st')"
      and x': "extends (heap st1) (heap st')"
      and r: "list_all2 (same_slot (same_value s) (heap st')) res xs"
      by auto
    from l p Some n have
      "array_loop (resolve s) st data [n ..< length xs] acc = (Inr res, st')"
      by (simp add: upt prop_has_Arr [OF Suc.prems(1)])
    with r extends_trans [OF x x'] show ?thesis by blast
  qed
qed

lemma array_resolver_settles:
  assumes "settles s" and "array_conf (conformant s) hint (heap st) v"
  shows "\<exists>v' st'. array_resolver (resolve s) st v hint = (Inr (v', Undefined), st') \<and>
                  array_same (same_value s) (heap st') v' v \<and> extends (heap st) (heap st')"
proof -
  from assms(2) obtain xs where d: "deref (heap st) v = Some (Arr xs)"
    and c: "list_all (\<lambda>x. case x of None \<Rightarrow> True | Some e \<Rightarrow> conformant s False (heap st) e) xs"
    by (auto simp: array_conf_iff)
  from array_loop_settles [OF assms(1) d c, of 0 "[]"] obtain res st1 where
    l: "array_loop (resolve s) st v [0 ..< length xs] [] = (Inr res, st1)"
    and x: "extends (heap st) (heap st1)"
    and r: "list_all2 (same_slot (same_value s) (heap st1)) res xs"
    by auto
  let ?st' = "st1\<lparr>heap := heap st1 @ [Arr res]\<rparr>"
  let ?v' = "Ref (length (heap st1))"
  from d l have res: "array_resolver (resolve s) st v hint = (Inr (?v', Undefined), ?st')"
    by (simp add: array_resolver_def isArray_def array_length_def new_array_def alloc_def)
  have x1: "extends (heap st1) (heap ?st')" by (simp add: extends_append)
  have d': "deref (heap ?st') ?v' = Some (Arr res)" by (simp add: deref_alloc)
  have dv: "deref (heap ?st') v = Some (Arr xs)"
    using deref_extends [OF extends_trans [OF x x1] d] .
  have "list_all2 (same_slot (same_value s) (heap ?st')) res xs"
    using r same_slot_extends [OF _ x1] by (auto elim!: list_all2_mono)
  with d' dv have "array_same (same_value s) (heap ?st') ?v' v"
    unfolding array_same_iff by blast
  with res extends_trans [OF x x1] show ?thesis by blast
qed

lemma tuple_loop_settles:
  assumes "\<And>s. s \<in> set list \<Longrightarrow> settles s"
  shows "deref (heap st) data = Some (Arr xs) \<Longrightarrow> index + length list \<le> length xs \<Longrightarrow>
         (\<forall>j < length list.
            conformant (list ! j) False (heap st) (slot_value (xs ! (index + j)))) \<Longrightarrow>
         \<exists>res st'. tuple_loop st data (map resolve list) index acc = (Inr res, st') \<and>
                   extends (heap st) (heap st') \<and> length res = length acc + length list \<and>
                   take (length acc) res = acc \<and>
                   (\<forall>j < length list.
                      same_value (list ! j) (heap st') (res ! (length acc + j))
                        (slot_value (xs ! (index + j))))"
  using assms
proof (induction list arbitrary: st index acc)
  case Nil
  then show ?case by (auto simp: extends_refl)
next
  case (Cons s rest)
  have ss: "settles s" using Cons.prems(4) by simp
  have sr: "\<And>t. t \<in> set rest \<Longrightarrow> settles t" using Cons.prems(4) by simp
  have i: "index < length xs" using Cons.prems(2) by simp
  have g: "prop_get (heap st) data (Index index) = Some (slot_value (xs ! index))"
    using i by (simp add: prop_get_Arr [OF Cons.prems(1)])
  have c: "conformant s False (heap st) (slot_value (xs ! index))"
    using Cons.prems(3) [rule_format, of 0] by simp
  from property_settles [OF ss g c] obtain e' st1 where
    p: "property st data (Index index) (resolve s) = (Inr e', st1)"
    and s: "same_value s (heap st1) e' (slot_value (xs ! index))"
    and x: "extends (heap st) (heap st1)"
    by auto
  have d1: "deref (heap st1) data = Some (Arr xs)" using deref_extends [OF x Cons.prems(1)] .
  have b1: "Suc index + length rest \<le> length xs" using Cons.prems(2) by simp
  have c1: "\<forall>j < length rest.
      conformant (rest ! j) False (heap st1) (slot_value (xs ! (Suc index + j)))"
  proof (intro allI impI)
    fix j assume "j < length rest"
    then have "conformant ((s # rest) ! Suc j) False (heap st) (slot_value (xs ! (index + Suc j)))"
      using Cons.prems(3) [rule_format, of "Suc j"] by simp
    then show "conformant (rest ! j) False (heap st1) (slot_value (xs ! (Suc index + j)))"
      using conformant_extends [OF _ x] by simp
  qed
  from Cons.IH [OF d1 b1 c1 sr, of "acc @ [e']"] obtain res st' where
    l: "tuple_loop st1 data (map resolve rest) (Suc index) (acc @ [e']) = (Inr res, st')"
    and x': "extends (heap st1) (heap st')"
    and len: "length res = length (acc @ [e']) + length rest"
    and tk: "take (length (acc @ [e'])) res = acc @ [e']"
    and r: "\<forall>j < length rest.
              same_value (rest ! j) (heap st') (res ! (length (acc @ [e']) + j))
                (slot_value (xs ! (Suc index + j)))"
    by auto
  have t: "take (length acc) res = acc"
  proof -
    have "take (length acc) res = take (length acc) (take (length (acc @ [e'])) res)"
      by (simp add: min_def)
    also have "\<dots> = acc" unfolding tk by simp
    finally show ?thesis .
  qed
  have v: "res ! length acc = e'"
  proof -
    have "res ! length acc = take (length (acc @ [e'])) res ! length acc" by simp
    also have "\<dots> = e'" unfolding tk by simp
    finally show ?thesis .
  qed
  have all: "same_value ((s # rest) ! j) (heap st') (res ! (length acc + j))
               (slot_value (xs ! (index + j)))" if "j < length (s # rest)" for j
  proof (cases j)
    case 0
    with v same_value_extends [OF s x'] show ?thesis by simp
  next
    case (Suc j')
    with that r show ?thesis by simp
  qed
  from l p have "tuple_loop st data (map resolve (s # rest)) index acc = (Inr res, st')"
    by simp
  with extends_trans [OF x x'] len t all show ?case by auto
qed

lemma tuple_resolver_settles:
  assumes "\<And>s. s \<in> set list \<Longrightarrow> settles s"
    and "tuple_conf (map conformant list) strict (heap st) v"
  shows "\<exists>v' st'. tuple_resolver (map resolve list) st v strict = (Inr (v', Undefined), st') \<and>
                  tuple_same (map same_value list) (heap st') v' v \<and>
                  extends (heap st) (heap st')"
proof -
  from assms(2) obtain xs where d: "deref (heap st) v = Some (Arr xs)"
    and len: "length list \<le> length xs" and sl: "strict \<longrightarrow> length xs = length list"
    and nn: "list_all (\<lambda>x. x \<noteq> None) xs"
    and c: "\<forall>i < length list. conformant (list ! i) False (heap st) (slot_value (xs ! i))"
    by (auto simp: tuple_conf_iff)
  from tuple_loop_settles [OF assms(1) d, of list 0 "[]"] len c obtain res st1 where
    l: "tuple_loop st v (map resolve list) 0 [] = (Inr res, st1)"
    and x: "extends (heap st) (heap st1)" and lr: "length res = length list"
    and r: "\<forall>j < length list.
              same_value (list ! j) (heap st1) (res ! j) (slot_value (xs ! j))"
    by auto
  have d1: "deref (heap st1) v = Some (Arr xs)" using deref_extends [OF x d] .
  let ?full = "if strict then res else res @ map slot_value (drop (length list) xs)"
  let ?st' = "st1\<lparr>heap := heap st1 @ [Arr (map Some ?full)]\<rparr>"
  let ?v' = "Ref (length (heap st1))"
  from d d1 l have res: "tuple_resolver (map resolve list) st v strict = (Inr (?v', Undefined), ?st')"
    by (simp add: tuple_resolver_def isArray_def slice_spread_def new_array_def alloc_def)
  have x1: "extends (heap st1) (heap ?st')" by (simp add: extends_append)
  have d': "deref (heap ?st') ?v' = Some (Arr (map Some ?full))" by (simp add: deref_alloc)
  have dv: "deref (heap ?st') v = Some (Arr xs)" using deref_extends [OF x1 d1] .
  have some: "xs ! i = Some (slot_value (xs ! i))" if "i < length xs" for i
  proof -
    from that have "xs ! i \<in> set xs" by (rule nth_mem)
    with nn have "xs ! i \<noteq> None" by (simp add: list_all_iff)
    then show ?thesis by (cases "xs ! i") (simp_all add: slot_value_def)
  qed
  have lf: "length (map Some ?full) = length xs" using lr len sl by auto
  have "\<forall>i < length xs.
      (i < length (map same_value list) \<longrightarrow>
         same_slot (map same_value list ! i) (heap ?st') (map Some ?full ! i) (xs ! i)) \<and>
      (length (map same_value list) \<le> i \<longrightarrow> map Some ?full ! i = xs ! i)"
  proof (intro allI impI conjI)
    fix i assume i: "i < length xs" and l: "i < length (map same_value list)"
    then have il: "i < length list" by simp
    from some [OF i] obtain e where xe: "xs ! i = Some e" by blast
    from r il have "same_value (list ! i) (heap st1) (res ! i) (slot_value (xs ! i))" by simp
    from same_value_extends [OF this x1]
    have "same_value (list ! i) (heap ?st') (res ! i) e" by (simp add: xe slot_value_def)
    then have "same_slot (same_value (list ! i)) (heap ?st') (Some (res ! i)) (xs ! i)"
      by (simp add: same_slot_def xe)
    moreover have "map Some ?full ! i = Some (res ! i)" using il lr by (simp add: nth_append)
    ultimately show "same_slot (map same_value list ! i) (heap ?st') (map Some ?full ! i) (xs ! i)"
      using il by simp
  next
    fix i assume i: "i < length xs" and l: "length (map same_value list) \<le> i"
    then have ns: "\<not> strict" using sl by auto
    from i l lr have "?full ! i = slot_value (xs ! i)" using ns by (simp add: nth_append)
    moreover have "i < length ?full" using lf i by simp
    ultimately have "map Some ?full ! i = Some (slot_value (xs ! i))" by simp
    with some [OF i] show "map Some ?full ! i = xs ! i" by simp
  qed
  with d' dv lf have "tuple_same (map same_value list) (heap ?st') ?v' v"
    unfolding tuple_same_iff by blast
  with res extends_trans [OF x x1] show ?thesis by blast
qed

lemma same_value_nullable_refl: "isNullable v \<Longrightarrow> same_value S h v v"
  by (cases S) (simp_all add: identical_def same_with_def)

lemma read_lookup: "has_key ps k \<or> \<not> inherited k \<Longrightarrow> read ps k = Some (lookup ps k)"
  by (auto simp: read_def lookup_def has_key_map_of split: option.splits)

lemma merge_loop_total:
  "(\<And>k. k \<in> set ks \<Longrightarrow> get_prop h data k \<noteq> None) \<Longrightarrow>
   \<exists>acc'. merge_loop h acc data ks = Some acc'"
proof (induction ks arbitrary: acc)
  case Nil
  show ?case by simp
next
  case (Cons key ks)
  have r: "\<And>k. k \<in> set ks \<Longrightarrow> get_prop h data k \<noteq> None" using Cons.prems by simp
  show ?case
  proof (cases "key_in acc key")
    case True
    with Cons.IH [OF r, of acc] show ?thesis by simp
  next
    case False
    then have "key \<noteq> ''__proto__''" using inherited_proto by (auto simp: key_in_def)
    from put_ordinary [OF this] Cons.prems [of key] obtain x acc1 where
      "get_prop h data key = Some x" "put acc key x = Some acc1"
      by fastforce
    with False Cons.IH [OF r, of acc1] show ?thesis by simp
  qed
qed

lemma object_loop_settles:
  assumes "\<And>k s. (k, s) \<in> set dict \<Longrightarrow> settles s"
  shows "distinct (map fst dict) \<Longrightarrow> ''__proto__'' \<notin> fst ` set dict \<Longrightarrow>
         deref (heap st) data = Some (Obj ps) \<Longrightarrow>
         (\<forall>p \<in> set dict. conformant (snd p) False (heap st) (lookup ps (fst p)) \<and>
                          (inherited (fst p) \<longrightarrow> has_key ps (fst p))) \<Longrightarrow>
         fst ` set acc \<inter> fst ` set dict = {} \<Longrightarrow>
         \<exists>res st'. object_loop st data (map (map_prod id resolve) dict) acc = (Inr res, st') \<and>
                   extends (heap st) (heap st') \<and>
                   (\<forall>k. k \<notin> fst ` set dict \<longrightarrow> map_of res k = map_of acc k) \<and>
                   (\<forall>p \<in> set dict.
                      (has_key res (fst p) \<longleftrightarrow> has_key ps (fst p)) \<and>
                      same_value (snd p) (heap st') (lookup res (fst p)) (lookup ps (fst p)))"
  using assms
proof (induction dict arbitrary: st acc)
  case Nil
  then show ?case by (auto simp: extends_refl)
next
  case (Cons entry rest)
  obtain k s where entry: "entry = (k, s)" by (cases entry)
  have ss: "settles s" using Cons.prems(6) [of k s] entry by simp
  have sr: "\<And>k s. (k, s) \<in> set rest \<Longrightarrow> settles s" using Cons.prems(6) by auto
  have kp: "k \<noteq> ''__proto__''" using Cons.prems(2) entry by auto
  have ck: "conformant s False (heap st) (lookup ps k)" and ik: "inherited k \<longrightarrow> has_key ps k"
    using Cons.prems(4) entry by auto
  from ik have kin: "key_in ps k = has_key ps k" by (auto simp: key_in_def)
  from ik have "has_key ps k \<or> \<not> inherited k" by blast
  then have g: "prop_get (heap st) data (Name k) = Some (lookup ps k)"
    using get_prop_Obj [OF Cons.prems(3), of k]
    by (simp add: prop_get_def key_name_def read_lookup Cons.prems(3))
  from property_settles [OF ss g ck] obtain e' st1 where
    p: "property st data (Name k) (resolve s) = (Inr e', st1)"
    and s: "same_value s (heap st1) e' (lookup ps k)"
    and x: "extends (heap st) (heap st1)"
    by auto
  have d1: "deref (heap st1) data = Some (Obj ps)" using deref_extends [OF x Cons.prems(3)] .
  have hin: "has_in (heap st1) data k = has_key ps k" using has_in_Obj [OF d1, of k] kin by simp
  have nul: "\<not> has_key ps k \<Longrightarrow> e' = Undefined"
  proof -
    assume "\<not> has_key ps k"
    then have "lookup ps k = Undefined" by (simp add: lookup_def has_key_map_of)
    with s same_value_nullable [of "lookup ps k" s "heap st1" e'] show ?thesis
      by (simp add: isNullable_def)
  qed
  have cond: "(\<not> isNullable e' \<or> has_in (heap st1) data k) = has_key ps k"
    using hin nul by (auto simp: isNullable_def)
  obtain acc1 where
    acc1: "if has_key ps k then put acc k e' = Some acc1 else acc1 = acc"
    using put_ordinary [OF kp, of acc e'] by (cases "has_key ps k") auto
  have m1: "map_of acc1 k' = (if k' = k \<and> has_key ps k then Some e' else map_of acc k')" for k'
    using acc1 map_of_put_at [of acc k e' acc1 k'] kp by (auto split: if_splits)
  have dist: "distinct (map fst rest)" and knot: "k \<notin> fst ` set rest"
    using Cons.prems(1) entry by auto
  have pr: "''__proto__'' \<notin> fst ` set rest" using Cons.prems(2) by auto
  have kacc: "map_of acc k = None"
    using Cons.prems(5) entry by (auto simp: map_of_eq_None_iff)
  have disj: "fst ` set acc1 \<inter> fst ` set rest = {}"
  proof -
    have "k' \<notin> fst ` set rest" if "k' \<in> fst ` set acc1" for k'
    proof -
      from that have "map_of acc1 k' \<noteq> None" by (simp add: map_of_eq_None_iff)
      with m1 [of k'] have "k' = k \<or> map_of acc k' \<noteq> None" by (auto split: if_splits)
      then show ?thesis
        using knot Cons.prems(5) by (auto simp: map_of_eq_None_iff)
    qed
    then show ?thesis by blast
  qed
  have c1: "\<forall>p \<in> set rest. conformant (snd p) False (heap st1) (lookup ps (fst p)) \<and>
                            (inherited (fst p) \<longrightarrow> has_key ps (fst p))"
    using Cons.prems(4) conformant_extends [OF _ x] by auto
  have "\<exists>res st'. object_loop st1 data (map (map_prod id resolve) rest) acc1 = (Inr res, st') \<and>
          extends (heap st1) (heap st') \<and>
          (\<forall>k'. k' \<notin> fst ` set rest \<longrightarrow> map_of res k' = map_of acc1 k') \<and>
          (\<forall>p \<in> set rest.
             (has_key res (fst p) \<longleftrightarrow> has_key ps (fst p)) \<and>
             same_value (snd p) (heap st') (lookup res (fst p)) (lookup ps (fst p)))"
    by (rule Cons.IH [OF dist pr d1 c1 disj]) (erule sr)
  then obtain res st' where
    l: "object_loop st1 data (map (map_prod id resolve) rest) acc1 = (Inr res, st')"
    and x': "extends (heap st1) (heap st')"
    and out: "\<forall>k'. k' \<notin> fst ` set rest \<longrightarrow> map_of res k' = map_of acc1 k'"
    and r: "\<forall>p \<in> set rest.
              (has_key res (fst p) \<longleftrightarrow> has_key ps (fst p)) \<and>
              same_value (snd p) (heap st') (lookup res (fst p)) (lookup ps (fst p))"
    by blast
  have loop: "object_loop st data (map (map_prod id resolve) (entry # rest)) acc = (Inr res, st')"
    using p l cond acc1 entry
    by (cases "has_key ps k") (simp_all add: beyond_def id_def)
  from out knot have mk: "map_of res k = map_of acc1 k" by simp
  have here: "(has_key res k \<longleftrightarrow> has_key ps k) \<and>
              same_value s (heap st') (lookup res k) (lookup ps k)"
  proof (cases "has_key ps k")
    case True
    with mk m1 [of k] have "map_of res k = Some e'" by simp
    then have "lookup res k = e'" "has_key res k"
      by (simp_all add: lookup_def has_key_map_of)
    with True same_value_extends [OF s x'] show ?thesis by simp
  next
    case False
    with mk m1 [of k] kacc have n: "map_of res k = None" by simp
    then have "lookup res k = Undefined" "\<not> has_key res k"
      by (simp_all add: lookup_def has_key_map_of)
    moreover from False have "lookup ps k = Undefined" by (simp add: lookup_def has_key_map_of)
    ultimately show ?thesis
      using False same_value_nullable_refl [of Undefined s "heap st'"]
      by (simp add: isNullable_def)
  qed
  have outside: "\<forall>k'. k' \<notin> fst ` set (entry # rest) \<longrightarrow> map_of res k' = map_of acc k'"
    using out entry m1 by auto
  have all: "\<forall>p \<in> set (entry # rest).
      (has_key res (fst p) \<longleftrightarrow> has_key ps (fst p)) \<and>
      same_value (snd p) (heap st') (lookup res (fst p)) (lookup ps (fst p))"
    using here r entry by simp
  from loop extends_trans [OF x x'] outside all show ?case by blast
qed

lemma object_resolver_settles:
  assumes "\<And>k s. (k, s) \<in> set dict \<Longrightarrow> settles s" and "distinct (map fst dict)"
    and "''__proto__'' \<notin> fst ` set dict"
    and "object_conf (map (map_prod id conformant) dict) strict (heap st) v"
  shows "\<exists>v' st'. object_resolver (map (map_prod id resolve) dict) st v strict
                    = (Inr (v', Undefined), st') \<and>
                  object_same (map (map_prod id same_value) dict) (heap st') v' v \<and>
                  extends (heap st) (heap st')"
proof -
  from assms(4) obtain ps where d: "deref (heap st) v = Some (Obj ps)"
    and sk: "strict \<longrightarrow> fst ` set ps \<subseteq> fst ` set dict"
    and ih: "\<forall>k \<in> fst ` set ps. inherited k \<longrightarrow> k \<in> fst ` set dict"
    and c0: "list_all (\<lambda>p. snd p False (heap st) (lookup ps (fst p)) \<and>
                            (inherited (fst p) \<longrightarrow> has_key ps (fst p)))
               (map (map_prod id conformant) dict)"
    unfolding object_conf_iff by auto
  have c: "\<forall>p \<in> set dict. conformant (snd p) False (heap st) (lookup ps (fst p)) \<and>
                           (inherited (fst p) \<longrightarrow> has_key ps (fst p))"
  proof
    fix p assume "p \<in> set dict"
    then have "map_prod id conformant p \<in> set (map (map_prod id conformant) dict)" by simp
    with c0 show "conformant (snd p) False (heap st) (lookup ps (fst p)) \<and>
                  (inherited (fst p) \<longrightarrow> has_key ps (fst p))"
      unfolding list_all_iff by (cases p) fastforce
  qed
  have em: "fst ` set ([] :: (string \<times> val) list) \<inter> fst ` set dict = {}" by simp
  have "\<exists>res st1. object_loop st v (map (map_prod id resolve) dict) [] = (Inr res, st1) \<and>
          extends (heap st) (heap st1) \<and>
          (\<forall>k. k \<notin> fst ` set dict \<longrightarrow> map_of res k = map_of [] k) \<and>
          (\<forall>p \<in> set dict.
             (has_key res (fst p) \<longleftrightarrow> has_key ps (fst p)) \<and>
             same_value (snd p) (heap st1) (lookup res (fst p)) (lookup ps (fst p)))"
    by (rule object_loop_settles [OF _ assms(2) assms(3) d c em]) (erule assms(1))
  then obtain res st1 where
    l: "object_loop st v (map (map_prod id resolve) dict) [] = (Inr res, st1)"
    and x: "extends (heap st) (heap st1)"
    and out: "\<forall>k. k \<notin> fst ` set dict \<longrightarrow> map_of res k = None"
    and r: "\<forall>p \<in> set dict.
              (has_key res (fst p) \<longleftrightarrow> has_key ps (fst p)) \<and>
              same_value (snd p) (heap st1) (lookup res (fst p)) (lookup ps (fst p))"
    by auto
  have d1: "deref (heap st1) v = Some (Obj ps)" using deref_extends [OF x d] .
  have reads: "\<And>k. k \<in> set (own_keys (heap st1) v) \<Longrightarrow> get_prop (heap st1) v k \<noteq> None"
    by (auto simp: own_keys_Obj [OF d1] get_prop_Obj [OF d1] read_def map_of_eq_None_iff
        split: option.splits)
  obtain ps' where ps': "(if strict then Some res else merge (heap st1) res v) = Some ps'"
    using merge_loop_total [OF reads, of "own_keys (heap st1) v" res]
    by (cases strict) (auto simp: merge_def)
  let ?st' = "st1\<lparr>heap := heap st1 @ [Obj ps']\<rparr>"
  let ?v' = "Ref (length (heap st1))"
  from d l ps' have res:
    "object_resolver (map (map_prod id resolve) dict) st v strict = (Inr (?v', Undefined), ?st')"
    by (simp add: object_resolver_def isObject_def new_object_def alloc_def)
  have x1: "extends (heap st1) (heap ?st')" by (simp add: extends_append)
  have d': "deref (heap ?st') ?v' = Some (Obj ps')" by (simp add: deref_alloc)
  have dv: "deref (heap ?st') v = Some (Obj ps)" using deref_extends [OF x1 d1] .
  have mps: "map_of ps' k =
      (case map_of res k of
         Some w \<Rightarrow> Some w
       | None \<Rightarrow> if \<not> strict \<and> k \<in> fst ` set ps \<and> \<not> inherited k then read ps k else None)"
    for k
  proof (cases strict)
    case True
    with ps' show ?thesis by (simp split: option.splits)
  next
    case False
    with ps' have "merge (heap st1) res v = Some ps'" by simp
    from map_of_merge [OF this, of k, unfolded own_keys_Obj [OF d1] get_prop_Obj [OF d1]] False
    show ?thesis by (auto split: option.splits)
  qed
  have declared: "has_key res k = has_key ps k" if "k \<in> fst ` set dict" for k
    using r that by force
  have undeclared: "map_of res k = None" if "k \<notin> fst ` set dict" for k
    using out that by simp
  have key_iff: "has_key ps' k = has_key ps k" for k
  proof (cases "k \<in> fst ` set dict")
    case True
    show ?thesis
    proof (cases "has_key ps k")
      case True
      with declared [OF \<open>k \<in> fst ` set dict\<close>] have "map_of res k \<noteq> None"
        by (simp add: has_key_map_of)
      with True mps [of k] show ?thesis by (auto simp: has_key_map_of split: option.splits)
    next
      case False
      with declared [OF True] have n: "map_of res k = None" by (simp add: has_key_map_of)
      from False have "k \<notin> fst ` set ps" by (simp add: has_key_conv)
      with n mps [of k] have "map_of ps' k = None" by simp
      with False show ?thesis by (simp add: has_key_map_of)
    qed
  next
    case False
    note nd = this
    from undeclared [OF this] have n: "map_of res k = None" .
    show ?thesis
    proof (cases "has_key ps k")
      case True
      then have kin: "k \<in> fst ` set ps" by (simp add: has_key_conv)
      with ih nd have ni: "\<not> inherited k" by blast
      from kin sk nd have ns: "\<not> strict" by blast
      from True have "read ps k \<noteq> None" by (auto simp: read_def has_key_map_of)
      with n mps [of k] kin ni ns True show ?thesis by (simp add: has_key_map_of)
    next
      case False
      then have "k \<notin> fst ` set ps" by (simp add: has_key_conv)
      with n mps [of k] have "map_of ps' k = None" by simp
      with False show ?thesis by (simp add: has_key_map_of)
    qed
  qed
  have keys: "fst ` set ps' = fst ` set ps"
  proof (rule set_eqI)
    fix k show "k \<in> fst ` set ps' \<longleftrightarrow> k \<in> fst ` set ps"
      using key_iff [of k] by (simp add: has_key_conv)
  qed
  have vals: "\<forall>k \<in> fst ` set ps.
      case map_of (map (map_prod id same_value) dict) k of
        Some s \<Rightarrow> s (heap ?st') (lookup ps' k) (lookup ps k)
      | None \<Rightarrow> lookup ps' k = lookup ps k"
  proof
    fix k assume kin: "k \<in> fst ` set ps"
    then have hk: "has_key ps k" by (simp add: has_key_conv)
    show "case map_of (map (map_prod id same_value) dict) k of
            Some s \<Rightarrow> s (heap ?st') (lookup ps' k) (lookup ps k)
          | None \<Rightarrow> lookup ps' k = lookup ps k"
    proof (cases "map_of dict k")
      case None
      then have nd: "k \<notin> fst ` set dict" by (simp add: map_of_eq_None_iff)
      from undeclared [OF this] have n: "map_of res k = None" .
      from kin ih nd have ni: "\<not> inherited k" by blast
      from kin sk nd have ns: "\<not> strict" by blast
      from n mps [of k] kin ni ns have "map_of ps' k = read ps k" by simp
      with hk have "lookup ps' k = lookup ps k"
        by (simp add: read_lookup lookup_def)
      with None show ?thesis by (simp add: map_of_map_prod)
    next
      case (Some s)
      then have mem: "(k, s) \<in> set dict" by (rule map_of_SomeD)
      with r have hr: "has_key res k \<longleftrightarrow> has_key ps k"
        and sv: "same_value s (heap st1) (lookup res k) (lookup ps k)" by force+
      from hr hk obtain w where w: "map_of res k = Some w"
        by (auto simp: has_key_map_of)
      with mps [of k] have "lookup ps' k = lookup res k" by (simp add: lookup_def)
      with same_value_extends [OF sv x1] Some show ?thesis by (simp add: map_of_map_prod)
    qed
  qed
  from d' dv keys vals have "object_same (map (map_prod id same_value) dict) (heap ?st') ?v' v"
    unfolding object_same_iff by blast
  with res extends_trans [OF x x1] show ?thesis by blast
qed

lemma primitive_settles:
  assumes "\<And>st v hint. \<not> isNullable v \<Longrightarrow> k hint (heap st) v \<Longrightarrow>
             cb st v hint = (Inr (v, Undefined), st)"
    and "resolve S = resolve_with S (Some cb)" and "conformant S = conf_with (meta_of S) k"
    and "same_value S = identical"
  shows "settles S"
  unfolding settles_def
proof (intro allI impI)
  fix st :: state and v hint assume "conformant S hint (heap st) v"
  then have c: "conf_with (meta_of S) k hint (heap st) v" by (simp add: assms(3))
  have "resolve_with S (Some cb) st v hint = (Inr (v, Undefined), st)"
    by (rule resolve_with_identity [where k = k, OF _ c]) (rule assms(1))
  then have "resolve S st v hint = (Inr (v, Undefined), st)" by (simp add: assms(2))
  then show "\<exists>v' st'. resolve S st v hint = (Inr (v', Undefined), st') \<and>
                     same_value S (heap st') v' v \<and> extends (heap st) (heap st')"
    by (simp add: assms(4) identical_def extends_refl)
qed

lemma container_settles:
  assumes "\<And>st v hint. \<not> isNullable v \<Longrightarrow> k hint (heap st) v \<Longrightarrow>
             \<exists>v' st'. cb st v hint = (Inr (v', Undefined), st') \<and> sm (heap st') v' v \<and>
                      extends (heap st) (heap st')"
    and "resolve S = resolve_with S (Some cb)" and "conformant S = conf_with (meta_of S) k"
    and "same_value S = same_with sm"
  shows "settles S"
  unfolding settles_def
proof (intro allI impI)
  fix st :: state and v hint assume "conformant S hint (heap st) v"
  then have c: "conf_with (meta_of S) k hint (heap st) v" by (simp add: assms(3))
  have "\<exists>v' st'. resolve_with S (Some cb) st v hint = (Inr (v', Undefined), st') \<and>
                  same_with sm (heap st') v' v \<and> extends (heap st) (heap st')"
    by (rule resolve_with_settles [where k = k, OF _ c]) (rule assms(1))
  then show "\<exists>v' st'. resolve S st v hint = (Inr (v', Undefined), st') \<and>
                  same_value S (heap st') v' v \<and> extends (heap st) (heap st')"
    by (simp add: assms(2) assms(4))
qed

lemma plain_settles: "plain S \<Longrightarrow> settles S"
proof (induction S)
  case (SAny m)
  show ?case
    by (rule primitive_settles [where cb = any_resolver and k = "\<lambda>strict h v. True"])
       (simp_all add: any_resolver_def)
next
  case (SNever m)
  show ?case
    by (rule primitive_settles [where cb = never_resolver and k = "\<lambda>strict h v. False"])
       simp_all
next
  case (SConst c m)
  show ?case
    by (rule primitive_settles [where cb = "const_resolver c" and k = "\<lambda>strict h v. v = c"])
       (simp_all add: const_resolver_def)
next
  case (SString m)
  show ?case
    by (rule primitive_settles [where cb = string_resolver
          and k = "\<lambda>strict h v. case v of Str s \<Rightarrow> True | _ \<Rightarrow> False"])
       (simp_all add: string_resolver_def split: val.splits)
next
  case (SNumber m)
  show ?case
    by (rule primitive_settles [where cb = number_resolver
          and k = "\<lambda>strict h v. case v of Num n \<Rightarrow> True | _ \<Rightarrow> False"])
       (simp_all add: number_resolver_def split: val.splits)
next
  case (SBoolean m)
  show ?case
    by (rule primitive_settles [where cb = boolean_resolver
          and k = "\<lambda>strict h v. case v of Bool b \<Rightarrow> True | _ \<Rightarrow> False"])
       (simp_all add: boolean_resolver_def split: val.splits)
next
  case (SIs c m)
  show ?case
    by (rule primitive_settles [where cb = "is_resolver c" and k = "\<lambda>strict h v. instanceOf h v c"])
       (simp_all add: is_resolver_def)
next
  case (SArray inner m)
  then have "settles inner" by simp
  from array_resolver_settles [OF this] show ?case
    by (intro container_settles [where cb = "array_resolver (resolve inner)"
          and k = "array_conf (conformant inner)" and sm = "array_same (same_value inner)"])
       simp_all
next
  case (STuple list m)
  then have "\<And>s. s \<in> set list \<Longrightarrow> settles s" by (simp add: list_all_iff)
  from tuple_resolver_settles [OF this] show ?case
    by (intro container_settles [where cb = "tuple_resolver (map resolve list)"
          and k = "tuple_conf (map conformant list)" and sm = "tuple_same (map same_value list)"])
       simp_all
next
  case (SObject dict m)
  then have s: "\<And>k s. (k, s) \<in> set dict \<Longrightarrow> settles s"
    and d: "distinct (map fst dict)" and p: "''__proto__'' \<notin> fst ` set dict"
    by (auto simp: list_all_iff)
  have "\<exists>v' st'. object_resolver (map (map_prod id resolve) dict) st v strict
                    = (Inr (v', Undefined), st') \<and>
                  object_same (map (map_prod id same_value) dict) (heap st') v' v \<and>
                  extends (heap st) (heap st')"
    if "object_conf (map (map_prod id conformant) dict) strict (heap st) v" for st v strict
    by (rule object_resolver_settles [OF _ d p that]) (erule s)
  then show ?case
    by (intro container_settles [where cb = "object_resolver (map (map_prod id resolve) dict)"
          and k = "object_conf (map (map_prod id conformant) dict)"
          and sm = "object_same (map (map_prod id same_value) dict)"])
       simp_all
qed simp_all

subsection \<open>Resolving a resolved value again\<close>

text \<open>
  C4 as stated fails for four of the supported kinds.

  \<^item> Transform applies its callback at every resolution:
    \<^verbatim>\<open>transform(number(), x => x + 1)\<close> resolves \<open>1\<close> to \<open>2\<close> and \<open>2\<close> to \<open>3\<close>.
  \<^item> Union returns the first alternative that accepts, and the result of a later
    alternative can be accepted by an earlier one: with the alternatives
    \<^verbatim>\<open>object({a: number().required(), b: any().default(2)})\<close> and
    \<^verbatim>\<open>object({a: any().default(1)})\<close>, the input \<^verbatim>\<open>{}\<close> resolves to \<^verbatim>\<open>{a: 1}\<close> (the object at
    \<open>Ref 1\<close>), which resolves to \<^verbatim>\<open>{a: 1, b: 2}\<close> (the object at \<open>Ref 2\<close>).
  \<^item> Intersect always returns an object: \<^verbatim>\<open>intersect([number()])\<close> resolves \<open>5\<close> to \<^verbatim>\<open>{}\<close>, and
    resolving \<^verbatim>\<open>{}\<close> fails.
  \<^item> Dict empties the map it resolves: \<^verbatim>\<open>dict(number())\<close> resolves \<^verbatim>\<open>{a: 1}\<close> to a new map
    \<^verbatim>\<open>{a: 1}\<close> (the object at \<open>Ref 1\<close>); resolving that map gives another new map
    \<^verbatim>\<open>{a: 1}\<close> (the object at \<open>Ref 2\<close>) and leaves the first result empty, so that the two
    results differ when they are compared.
\<close>

theorem idempotence_counterexample:
  "resolve (STransform (SNumber no_meta)
              (\<lambda>h v. (Inr (case v of Num n \<Rightarrow> Num (n + 1) | _ \<Rightarrow> v), h)) no_meta)
     \<lparr>heap = [], current = None\<rparr> (Num 1) False =
   (Inr (Num 2, Num 2), \<lparr>heap = [], current = None\<rparr>) \<and>
   resolve (STransform (SNumber no_meta)
              (\<lambda>h v. (Inr (case v of Num n \<Rightarrow> Num (n + 1) | _ \<Rightarrow> v), h)) no_meta)
     \<lparr>heap = [], current = None\<rparr> (Num 2) False =
   (Inr (Num 3, Num 3), \<lparr>heap = [], current = None\<rparr>) \<and>
   resolve (SUnion
              [SObject [(''a'', SNumber (no_meta\<lparr>required := True\<rparr>)),
                        (''b'', SAny (no_meta\<lparr>default_value := Num 2\<rparr>))] no_meta,
               SObject [(''a'', SAny (no_meta\<lparr>default_value := Num 1\<rparr>))] no_meta] no_meta)
     \<lparr>heap = [Obj []], current = None\<rparr> (Ref 0) False =
   (Inr (Ref 1, Undefined), \<lparr>heap = [Obj [], Obj [(''a'', Num 1)]], current = None\<rparr>) \<and>
   resolve (SUnion
              [SObject [(''a'', SNumber (no_meta\<lparr>required := True\<rparr>)),
                        (''b'', SAny (no_meta\<lparr>default_value := Num 2\<rparr>))] no_meta,
               SObject [(''a'', SAny (no_meta\<lparr>default_value := Num 1\<rparr>))] no_meta] no_meta)
     \<lparr>heap = [Obj [], Obj [(''a'', Num 1)]], current = None\<rparr> (Ref 1) False =
   (Inr (Ref 2, Undefined),
    \<lparr>heap = [Obj [], Obj [(''a'', Num 1)], Obj [(''a'', Num 1), (''b'', Num 2)]],
      current = None\<rparr>) \<and>
   resolve (SIntersect [SNumber no_meta] no_meta) \<lparr>heap = [], current = None\<rparr> (Num 5) False =
   (Inr (Ref 0, Undefined), \<lparr>heap = [Obj []], current = None\<rparr>) \<and>
   resolve (SIntersect [SNumber no_meta] no_meta) \<lparr>heap = [Obj []], current = None\<rparr> (Ref 0) False =
   (Inl (SchemaError ''expected number but got {}'' (Some (SIntersect [SNumber no_meta] no_meta))),
    \<lparr>heap = [Obj []], current = None\<rparr>) \<and>
   resolve (SDict (SNumber no_meta) (SAny no_meta) no_meta)
     \<lparr>heap = [Obj [(''a'', Num 1)]], current = None\<rparr> (Ref 0) False =
   (Inr (Ref 1, Undefined), \<lparr>heap = [Obj [], Obj [(''a'', Num 1)]], current = None\<rparr>) \<and>
   resolve (SDict (SNumber no_meta) (SAny no_meta) no_meta)
     \<lparr>heap = [Obj [], Obj [(''a'', Num 1)]], current = None\<rparr> (Ref 1) False =
   (Inr (Ref 2, Undefined), \<lparr>heap = [Obj [], Obj [], Obj [(''a'', Num 1)]], current = None\<rparr>)"
  by (simp add: store_defs render_defs engine_defs)

text \<open>
  C4, amended. Let \<open>S\<close> be a plain schema: one of the kinds any, never, const, string,
  number, boolean or instance check, or an array, a tuple or an object of plain schemas,
  with any metadata. Whenever \<open>S\<close> resolves an input, it also resolves the result, in the
  state that the first resolution has left, and the second result equals the first:
  it is the same value where the schema is of a kind without sub-schemas, and a new
  container with the same slots or keys and equal entries otherwise. The second resolution
  only adds objects to the store, so the first result is still what it was.
\<close>

theorem plain_idempotent:
  assumes "plain S" and "resolve S st x hint = (Inr (v, a), st')"
  shows "\<exists>v' st''. resolve S st' v hint = (Inr (v', a), st'') \<and>
                   same_value S (heap st'') v' v \<and> extends (heap st') (heap st'')"
proof -
  from soundD [OF plain_sound [OF assms(1)] assms(2)] have
    c: "conformant S hint (heap st') v" and a: "a = Undefined" by simp_all
  from settlesD [OF plain_settles [OF assms(1)] c] a show ?thesis by simp
qed

theorem plain_idempotent_witness:
  "plain (SObject [(''a'', SArray (SNumber no_meta) no_meta),
                   (''t'', STuple [SString no_meta] no_meta)] no_meta) \<and>
   resolve (SObject [(''a'', SArray (SNumber no_meta) no_meta),
                     (''t'', STuple [SString no_meta] no_meta)] no_meta)
     \<lparr>heap = [Obj [(''a'', Ref 1), (''t'', Ref 2), (''b'', Bool True)],
              Arr [Some (Num 1), None, Some (Num 2)],
              Arr [Some (Str ''x''), Some (Num 7)]], current = None\<rparr> (Ref 0) False =
   (Inr (Ref 5, Undefined),
    \<lparr>heap = [Obj [(''a'', Ref 1), (''t'', Ref 2), (''b'', Bool True)],
             Arr [Some (Num 1), None, Some (Num 2)],
             Arr [Some (Str ''x''), Some (Num 7)],
             Arr [Some (Num 1), None, Some (Num 2)],
             Arr [Some (Str ''x''), Some (Num 7)],
             Obj [(''a'', Ref 3), (''t'', Ref 4), (''b'', Bool True)]], current = None\<rparr>) \<and>
   (\<exists>v' st''.
      resolve (SObject [(''a'', SArray (SNumber no_meta) no_meta),
                        (''t'', STuple [SString no_meta] no_meta)] no_meta)
        \<lparr>heap = [Obj [(''a'', Ref 1), (''t'', Ref 2), (''b'', Bool True)],
                 Arr [Some (Num 1), None, Some (Num 2)],
                 Arr [Some (Str ''x''), Some (Num 7)],
                 Arr [Some (Num 1), None, Some (Num 2)],
                 Arr [Some (Str ''x''), Some (Num 7)],
                 Obj [(''a'', Ref 3), (''t'', Ref 4), (''b'', Bool True)]], current = None\<rparr>
        (Ref 5) False = (Inr (v', Undefined), st'') \<and>
      same_value (SObject [(''a'', SArray (SNumber no_meta) no_meta),
                           (''t'', STuple [SString no_meta] no_meta)] no_meta)
        (heap st'') v' (Ref 5))"
proof -
  let ?S = "SObject [(''a'', SArray (SNumber no_meta) no_meta),
                     (''t'', STuple [SString no_meta] no_meta)] no_meta"
  let ?st = "\<lparr>heap = [Obj [(''a'', Ref 1), (''t'', Ref 2), (''b'', Bool True)],
              Arr [Some (Num 1), None, Some (Num 2)],
              Arr [Some (Str ''x''), Some (Num 7)]], current = None\<rparr>"
  let ?st' = "\<lparr>heap = [Obj [(''a'', Ref 1), (''t'', Ref 2), (''b'', Bool True)],
             Arr [Some (Num 1), None, Some (Num 2)],
             Arr [Some (Str ''x''), Some (Num 7)],
             Arr [Some (Num 1), None, Some (Num 2)],
             Arr [Some (Str ''x''), Some (Num 7)],
             Obj [(''a'', Ref 3), (''t'', Ref 4), (''b'', Bool True)]], current = None\<rparr>"
  have p: "plain ?S" by simp
  have r: "resolve ?S ?st (Ref 0) False = (Inr (Ref 5, Undefined), ?st')"
    by (simp add: store_defs render_defs engine_defs)
  from plain_idempotent [OF p r] p r show ?thesis by blast
qed

end
